theory Spec2Isabelle
  imports Main "HOL-Library.Word" "HOL-Library.AList" "HOL-Library.List_Lexorder"
begin

section \<open>Bytes, strings and exceptions\<close>

text \<open>
  The data file of \<^verbatim>\<open>server.py\<close> is a sequence of bytes. A Python \<^verbatim>\<open>str\<close> is a
  sequence of Unicode code points, modelled as a list of naturals; the order on
  such lists is the lexicographic one, which is how Python compares strings.
  Every exception the engine can raise is a value of \<open>error\<close>.
\<close>

type_synonym byte = "8 word"
type_synonym pystr = "nat list"

datatype error =
    StructError
  | UnicodeDecodeError
  | UnicodeEncodeError
  | FileNotFoundError
  | OverflowError
  | KeyError
  | ValueError
  | IndexError

definition ascii :: "string \<Rightarrow> pystr" where
  "ascii cs = map of_char cs"

definition DELETED :: pystr where
  "DELETED = ascii ''DELETED''"

subsection \<open>\<^verbatim>\<open>str.encode('utf-8')\<close> and \<^verbatim>\<open>bytes.decode('utf-8')\<close>\<close>

text \<open>
  Encoding raises \<^verbatim>\<open>UnicodeEncodeError\<close> on a surrogate (and a list element
  from \<open>0x110000\<close> on is no code point at all); decoding is strict: it raises
  \<^verbatim>\<open>UnicodeDecodeError\<close> on a truncated sequence, a stray continuation byte,
  an overlong form, a surrogate or a value beyond \<open>0x10FFFF\<close>. \<open>None\<close> stands
  for the exception.
\<close>

definition utf8_char :: "nat \<Rightarrow> byte list option" where
  "utf8_char c =
    (if c < 0x80 then Some [of_nat c]
     else if c < 0x800 then Some [of_nat (0xC0 + c div 64), of_nat (0x80 + c mod 64)]
     else if 0xD800 \<le> c \<and> c < 0xE000 then None
     else if c < 0x10000 then
       Some [of_nat (0xE0 + c div 4096), of_nat (0x80 + c div 64 mod 64), of_nat (0x80 + c mod 64)]
     else if c < 0x110000 then
       Some [of_nat (0xF0 + c div 262144), of_nat (0x80 + c div 4096 mod 64),
             of_nat (0x80 + c div 64 mod 64), of_nat (0x80 + c mod 64)]
     else None)"

fun utf8_encode :: "pystr \<Rightarrow> byte list option" where
  "utf8_encode [] = Some []"
| "utf8_encode (c # cs) =
    (case utf8_char c of
       None \<Rightarrow> None
     | Some bs \<Rightarrow> (case utf8_encode cs of None \<Rightarrow> None | Some rest \<Rightarrow> Some (bs @ rest)))"

definition is_cont :: "byte \<Rightarrow> bool" where
  "is_cont b = (0x80 \<le> unat b \<and> unat b < 0xC0)"

definition cont_bits :: "byte \<Rightarrow> nat" where
  "cont_bits b = unat b - 0x80"

fun utf8_next :: "byte list \<Rightarrow> (nat \<times> byte list) option" where
  "utf8_next [] = None"
| "utf8_next (b # bs) =
    (let n = unat b in
     if n < 0x80 then Some (n, bs)
     else if n < 0xC2 then None
     else if n < 0xE0 then
       (case bs of
          c1 # r \<Rightarrow> if is_cont c1 then Some ((n - 0xC0) * 64 + cont_bits c1, r) else None
        | _ \<Rightarrow> None)
     else if n < 0xF0 then
       (case bs of
          c1 # c2 # r \<Rightarrow>
            if is_cont c1 \<and> is_cont c2 then
              (let c = (n - 0xE0) * 4096 + cont_bits c1 * 64 + cont_bits c2 in
               if c < 0x800 \<or> (0xD800 \<le> c \<and> c < 0xE000) then None else Some (c, r))
            else None
        | _ \<Rightarrow> None)
     else if n < 0xF5 then
       (case bs of
          c1 # c2 # c3 # r \<Rightarrow>
            if is_cont c1 \<and> is_cont c2 \<and> is_cont c3 then
              (let c = (n - 0xF0) * 262144 + cont_bits c1 * 4096 + cont_bits c2 * 64 + cont_bits c3 in
               if c < 0x10000 \<or> 0x110000 \<le> c then None else Some (c, r))
            else None
        | _ \<Rightarrow> None)
     else None)"

function utf8_decode :: "byte list \<Rightarrow> pystr option" where
  "utf8_decode bs =
    (if bs = [] then Some []
     else (case utf8_next bs of
             None \<Rightarrow> None
           | Some (c, r) \<Rightarrow> (case utf8_decode r of None \<Rightarrow> None | Some cs \<Rightarrow> Some (c # cs))))"
  by pat_completeness auto
termination
  by (relation "measure length")
     (auto simp: neq_Nil_conv Let_def split: if_splits list.splits)

declare utf8_decode.simps [simp del]

subsection \<open>\<^verbatim>\<open>struct.pack("!QII", ...)\<close> and \<^verbatim>\<open>struct.unpack\<close>\<close>

text \<open>
  Network byte order: an unsigned 8-byte timestamp and two unsigned 4-byte sizes.
  \<^verbatim>\<open>pack\<close> raises \<^verbatim>\<open>struct.error\<close> when a number does not fit its field,
  \<^verbatim>\<open>unpack\<close> when the buffer is not exactly 16 bytes long.
\<close>

fun be_bytes :: "nat \<Rightarrow> nat \<Rightarrow> byte list" where
  "be_bytes 0 v = []"
| "be_bytes (Suc n) v = be_bytes n (v div 256) @ [of_nat (v mod 256)]"

definition be_nat :: "byte list \<Rightarrow> nat" where
  "be_nat bs = foldl (\<lambda>a b. a * 256 + unat b) 0 bs"

definition struct_pack :: "int \<Rightarrow> nat \<Rightarrow> nat \<Rightarrow> error + byte list" where
  "struct_pack timestamp key_size value_size =
    (if 0 \<le> timestamp \<and> timestamp < 2 ^ 64 \<and> key_size < 2 ^ 32 \<and> value_size < 2 ^ 32
     then Inr (be_bytes 8 (nat timestamp) @ be_bytes 4 key_size @ be_bytes 4 value_size)
     else Inl StructError)"

definition struct_unpack :: "byte list \<Rightarrow> error + (nat \<times> nat \<times> nat)" where
  "struct_unpack header =
    (if length header = 16
     then Inr (be_nat (take 8 header), be_nat (take 4 (drop 8 header)), be_nat (drop 12 header))
     else Inl StructError)"

section \<open>The store\<close>

text \<open>
  \<open>data_file\<close> is the content of \<^verbatim>\<open>store.dat\<close>, \<open>None\<close> while the file does not
  exist. \<open>keys\<close> is the \<^verbatim>\<open>OrderedDict\<close> index in insertion order, each key with
  its \<^verbatim>\<open>(file_position, entry_size, timestamp)\<close>; assigning to a key that is
  present keeps its place, a new key goes to the end, which is what
  \<open>AList.update\<close> does.
\<close>

type_synonym entry = "nat \<times> nat \<times> int"

record kvstore =
  data_file :: "byte list option"
  keys :: "(pystr \<times> entry) list"
  data_size :: nat
  deleted_size :: nat

subsection \<open>\<^verbatim>\<open>_load_from_disk\<close>\<close>

text \<open>
  The \<^verbatim>\<open>while True\<close> loop. \<open>pos\<close> is \<^verbatim>\<open>f.tell()\<close> and \<open>rest\<close> the bytes from
  there to the end of the file; \<^verbatim>\<open>f.read(n)\<close> is \<open>take n\<close> and moves on by the
  bytes it got. The loop leaves only on an empty header; a header of 1 to 15
  bytes goes to \<^verbatim>\<open>struct.unpack\<close>.
\<close>

function load_loop :: "nat \<Rightarrow> byte list \<Rightarrow> kvstore \<Rightarrow> error + kvstore" where
  "load_loop pos rest s =
    (if take 16 rest = [] then Inr s
     else
       (case struct_unpack (take 16 rest) of
          Inl e \<Rightarrow> Inl e
        | Inr (timestamp, key_size, value_size) \<Rightarrow>
            (case utf8_decode (take key_size (drop 16 rest)) of
               None \<Rightarrow> Inl UnicodeDecodeError
             | Some key \<Rightarrow>
                 load_loop
                   (pos + 16 + length (take key_size (drop 16 rest))
                        + length (take value_size (drop (16 + key_size) rest)))
                   (drop (16 + key_size + value_size) rest)
                   (let entry_size = 16 + key_size + value_size;
                        s1 = (case map_of (keys s) key of
                                Some (old_pos, old_size, _) \<Rightarrow>
                                  s\<lparr>deleted_size := deleted_size s + old_size\<rparr>
                              | None \<Rightarrow> s)
                    in s1\<lparr>keys := AList.update key (pos, entry_size, int timestamp) (keys s1),
                          data_size := data_size s1 + entry_size\<rparr>))))"
  by pat_completeness auto
termination
  by (relation "measure (\<lambda>(pos, rest, s). length rest)")
     (auto simp: struct_unpack_def split: if_splits)

declare load_loop.simps [simp del]

definition load_from_disk :: "kvstore \<Rightarrow> error + kvstore" where
  "load_from_disk s =
    (let s0 = s\<lparr>keys := [], data_size := 0, deleted_size := 0\<rparr> in
     case data_file s0 of
       None \<Rightarrow> Inr s0
     | Some bytes \<Rightarrow> load_loop 0 bytes s0)"

text \<open>\<^verbatim>\<open>KeyValueStore()\<close> on a file system whose \<^verbatim>\<open>store.dat\<close> is \<open>file\<close>.\<close>

definition init :: "byte list option \<Rightarrow> error + kvstore" where
  "init file = load_from_disk \<lparr>data_file = file, keys = [], data_size = 0, deleted_size = 0\<rparr>"

subsection \<open>The compaction trigger\<close>

text \<open>
  \<^verbatim>\<open>self.data_size > 0 and self.deleted_size / self.data_size > COMPACTION_THRESHOLD\<close>
  with the threshold \<open>0.5\<close>. Python's \<^verbatim>\<open>/\<close> on two integers is the exact quotient
  rounded to the nearest double, ties to even. The double after \<open>1/2\<close> is
  \<open>1/2 + 2^-53\<close> and \<open>1/2\<close> is the even neighbour, so the rounded quotient is
  greater than \<open>0.5\<close> exactly when the true quotient is greater than
  \<open>1/2 + 2^-54\<close>: when \<open>data * (2^53 + 1) < deleted * 2^54\<close>. The division raises
  \<^verbatim>\<open>OverflowError\<close> when the quotient rounds to \<open>2^1024\<close> or more. Lemma
  \<open>exceeds_threshold_small\<close> shows that below \<open>2^53\<close> bytes this is the plain
  comparison \<open>data < 2 * deleted\<close>.
\<close>

definition exceeds_threshold :: "nat \<Rightarrow> nat \<Rightarrow> error + bool" where
  "exceeds_threshold deleted data =
    (if data * (2 ^ 1024 - 2 ^ 970) \<le> deleted then Inl OverflowError
     else Inr (data * (2 ^ 53 + 1) < deleted * 2 ^ 54))"

definition compaction_due :: "kvstore \<Rightarrow> error + bool" where
  "compaction_due s =
    (if data_size s > 0 then exceeds_threshold (deleted_size s) (data_size s) else Inr False)"

subsection \<open>\<^verbatim>\<open>_compact\<close>\<close>

text \<open>
  The loop over \<^verbatim>\<open>self.keys.items()\<close>: \<^verbatim>\<open>old_f.seek(pos); old_f.read(size)\<close> is
  \<open>take sz (drop pos old_f)\<close>, \<^verbatim>\<open>new_f.tell()\<close> the length written so far. The
  loop assigns to keys that are present only, so the iteration order is that of
  the index on entry (the keys of a dictionary are distinct). Opening the old
  file for reading raises when it does not exist.
\<close>

fun compact_loop ::
  "byte list \<Rightarrow> (pystr \<times> entry) list \<Rightarrow> byte list \<times> (pystr \<times> entry) list
    \<Rightarrow> byte list \<times> (pystr \<times> entry) list" where
  "compact_loop old_f [] (new_f, ks) = (new_f, ks)"
| "compact_loop old_f ((key, (pos, sz, timestamp)) # items) (new_f, ks) =
    (let entry_data = take sz (drop pos old_f);
         new_pos = length new_f
     in compact_loop old_f items
          (new_f @ entry_data, AList.update key (new_pos, sz, timestamp) ks))"

definition compact :: "kvstore \<Rightarrow> error + kvstore" where
  "compact s =
    (case data_file s of
       None \<Rightarrow> Inl FileNotFoundError
     | Some old_f \<Rightarrow>
         (case compact_loop old_f (keys s) ([], keys s) of
            (new_f, ks) \<Rightarrow>
              Inr \<lparr>data_file = Some new_f, keys = ks,
                   data_size = length new_f, deleted_size = 0\<rparr>))"

subsection \<open>\<^verbatim>\<open>put\<close>, \<^verbatim>\<open>read\<close>, \<^verbatim>\<open>read_key_range\<close>, \<^verbatim>\<open>batch_put\<close>, \<^verbatim>\<open>delete\<close>\<close>

text \<open>
  A method returns its result, or the exception it raised, together with the
  store as the call left it: the server catches the exception and goes on with
  the same store. \<open>now\<close> is what \<^verbatim>\<open>int(time.time())\<close> returned. Opening the file
  in mode \<^verbatim>\<open>'ab'\<close> creates it when it is missing, and \<^verbatim>\<open>f.tell()\<close> is then the
  length of the file.
\<close>

definition put :: "int \<Rightarrow> pystr \<Rightarrow> pystr \<Rightarrow> kvstore \<Rightarrow> (error + bool) \<times> kvstore" where
  "put now key value s =
    (case compaction_due s of
       Inl e \<Rightarrow> (Inl e, s)
     | Inr due \<Rightarrow>
     (case (if due then compact s else Inr s) of
       Inl e \<Rightarrow> (Inl e, s)
     | Inr s1 \<Rightarrow>
     (case utf8_encode value of
       None \<Rightarrow> (Inl UnicodeEncodeError, s1)
     | Some value_bytes \<Rightarrow>
     (case utf8_encode key of
       None \<Rightarrow> (Inl UnicodeEncodeError, s1)
     | Some key_bytes \<Rightarrow>
     (case struct_pack now (length key_bytes) (length value_bytes) of
       Inl e \<Rightarrow> (Inl e, s1)
     | Inr header \<Rightarrow>
         (let f = (case data_file s1 of None \<Rightarrow> [] | Some bytes \<Rightarrow> bytes);
              pos = length f;
              entry_size = 16 + length key_bytes + length value_bytes;
              deleted = (case map_of (keys s1) key of
                           Some (old_pos, old_size, _) \<Rightarrow> deleted_size s1 + old_size
                         | None \<Rightarrow> deleted_size s1)
          in (Inr True,
              \<lparr>data_file = Some (f @ header @ key_bytes @ value_bytes),
               keys = AList.update key (pos, entry_size, now) (keys s1),
               data_size = data_size s1 + entry_size,
               deleted_size = deleted\<rparr>)))))))"

definition read :: "pystr \<Rightarrow> kvstore \<Rightarrow> error + pystr option" where
  "read key s =
    (case map_of (keys s) key of
       None \<Rightarrow> Inr None
     | Some (pos, entry_size, _) \<Rightarrow>
     (case data_file s of
       None \<Rightarrow> Inl FileNotFoundError
     | Some f \<Rightarrow>
     (case struct_unpack (take 16 (drop pos f)) of
       Inl e \<Rightarrow> Inl e
     | Inr (timestamp, key_size, value_size) \<Rightarrow>
     (case utf8_decode (take value_size (drop (pos + 16 + key_size) f)) of
       None \<Rightarrow> Inl UnicodeDecodeError
     | Some value \<Rightarrow> if value = DELETED then Inr None else Inr (Some value)))))"

text \<open>
  \<^verbatim>\<open>read_key_range\<close>: first the snapshot of \<open>(key, pos, sz)\<close> for the sorted
  keys inside the range, then one read per snapshot entry. The file is opened
  before the second loop, whether or not the snapshot is empty.
\<close>

fun range_snapshot ::
  "(pystr \<times> entry) list \<Rightarrow> pystr \<Rightarrow> pystr \<Rightarrow> pystr list \<Rightarrow> error + (pystr \<times> nat \<times> nat) list" where
  "range_snapshot ks start_key end_key [] = Inr []"
| "range_snapshot ks start_key end_key (key # sorted_keys) =
    (if start_key \<le> key \<and> key \<le> end_key then
       (case map_of ks key of
          None \<Rightarrow> Inl KeyError
        | Some (pos, sz, _) \<Rightarrow>
            (case range_snapshot ks start_key end_key sorted_keys of
               Inl e \<Rightarrow> Inl e
             | Inr keys_to_read \<Rightarrow> Inr ((key, pos, sz) # keys_to_read)))
     else range_snapshot ks start_key end_key sorted_keys)"

fun range_values :: "byte list \<Rightarrow> (pystr \<times> nat \<times> nat) list \<Rightarrow> error + (pystr \<times> pystr) list" where
  "range_values f [] = Inr []"
| "range_values f ((key, pos, sz) # keys_to_read) =
    (case struct_unpack (take 16 (drop pos f)) of
       Inl e \<Rightarrow> Inl e
     | Inr (timestamp, key_size, value_size) \<Rightarrow>
     (case utf8_decode (take value_size (drop (pos + 16 + key_size) f)) of
       None \<Rightarrow> Inl UnicodeDecodeError
     | Some value \<Rightarrow>
     (case range_values f keys_to_read of
       Inl e \<Rightarrow> Inl e
     | Inr result \<Rightarrow> Inr (if value \<noteq> DELETED then (key, value) # result else result))))"

definition read_key_range :: "pystr \<Rightarrow> pystr \<Rightarrow> kvstore \<Rightarrow> error + (pystr \<times> pystr) list" where
  "read_key_range start_key end_key s =
    (case range_snapshot (keys s) start_key end_key (sort (map fst (keys s))) of
       Inl e \<Rightarrow> Inl e
     | Inr keys_to_read \<Rightarrow>
     (case data_file s of
       None \<Rightarrow> Inl FileNotFoundError
     | Some f \<Rightarrow> range_values f keys_to_read))"

text \<open>
  \<^verbatim>\<open>batch_put\<close>: the trigger is evaluated once, the file is opened once (and so
  created even for an empty batch), then the loop appends item after item.
  \<open>items\<close> lists the dictionary's \<open>(key, value)\<close> pairs in its order, each with
  the clock reading \<^verbatim>\<open>int(time.time())\<close> of its iteration. An exception inside
  the loop leaves the items before it written and indexed.
\<close>

fun batch_loop :: "(int \<times> pystr \<times> pystr) list \<Rightarrow> kvstore \<Rightarrow> (error + bool) \<times> kvstore" where
  "batch_loop [] s = (Inr True, s)"
| "batch_loop ((now, key, value) # items) s =
    (case utf8_encode value of
       None \<Rightarrow> (Inl UnicodeEncodeError, s)
     | Some value_bytes \<Rightarrow>
     (case utf8_encode key of
       None \<Rightarrow> (Inl UnicodeEncodeError, s)
     | Some key_bytes \<Rightarrow>
     (case struct_pack now (length key_bytes) (length value_bytes) of
       Inl e \<Rightarrow> (Inl e, s)
     | Inr header \<Rightarrow>
         (let f = (case data_file s of None \<Rightarrow> [] | Some bytes \<Rightarrow> bytes);
              pos = length f;
              entry_size = 16 + length key_bytes + length value_bytes;
              deleted = (case map_of (keys s) key of
                           Some (old_pos, old_size, _) \<Rightarrow> deleted_size s + old_size
                         | None \<Rightarrow> deleted_size s)
          in batch_loop items
              \<lparr>data_file = Some (f @ header @ key_bytes @ value_bytes),
               keys = AList.update key (pos, entry_size, now) (keys s),
               data_size = data_size s + entry_size,
               deleted_size = deleted\<rparr>))))"

definition batch_put :: "(int \<times> pystr \<times> pystr) list \<Rightarrow> kvstore \<Rightarrow> (error + bool) \<times> kvstore" where
  "batch_put items s =
    (case compaction_due s of
       Inl e \<Rightarrow> (Inl e, s)
     | Inr due \<Rightarrow>
     (case (if due then compact s else Inr s) of
       Inl e \<Rightarrow> (Inl e, s)
     | Inr s1 \<Rightarrow>
         batch_loop items
           (s1\<lparr>data_file := Some (case data_file s1 of None \<Rightarrow> [] | Some bytes \<Rightarrow> bytes)\<rparr>)))"

text \<open>
  \<^verbatim>\<open>delete\<close>: no trigger before the append; the tombstone is appended and
  indexed, and only then is the trigger evaluated.
\<close>

definition delete :: "int \<Rightarrow> pystr \<Rightarrow> kvstore \<Rightarrow> (error + bool) \<times> kvstore" where
  "delete now key s =
    (if map_of (keys s) key = None then (Inr False, s)
     else
     (case utf8_encode DELETED of
       None \<Rightarrow> (Inl UnicodeEncodeError, s)
     | Some value_bytes \<Rightarrow>
     (case utf8_encode key of
       None \<Rightarrow> (Inl UnicodeEncodeError, s)
     | Some key_bytes \<Rightarrow>
     (case struct_pack now (length key_bytes) (length value_bytes) of
       Inl e \<Rightarrow> (Inl e, s)
     | Inr header \<Rightarrow>
         (let f = (case data_file s of None \<Rightarrow> [] | Some bytes \<Rightarrow> bytes);
              pos = length f;
              entry_size = 16 + length key_bytes + length value_bytes;
              deleted = (case map_of (keys s) key of
                           Some (old_pos, old_size, _) \<Rightarrow> deleted_size s + old_size
                         | None \<Rightarrow> deleted_size s);
              s1 = \<lparr>data_file = Some (f @ header @ key_bytes @ value_bytes),
                    keys = AList.update key (pos, entry_size, now) (keys s),
                    data_size = data_size s + entry_size,
                    deleted_size = deleted\<rparr>
          in (case compaction_due s1 of
                Inl e \<Rightarrow> (Inl e, s1)
              | Inr due \<Rightarrow>
              (case (if due then compact s1 else Inr s1) of
                Inl e \<Rightarrow> (Inl e, s1)
              | Inr s2 \<Rightarrow> (Inr True, s2))))))))"

section \<open>The request handler\<close>

text \<open>
  \<^verbatim>\<open>str.strip()\<close> removes the characters for which \<^verbatim>\<open>str.isspace()\<close> holds from
  both ends; \<^verbatim>\<open>s.split(' ', 1)\<close> cuts at the first space, if there is one.
\<close>

definition py_isspace :: "nat \<Rightarrow> bool" where
  "py_isspace c \<longleftrightarrow>
     c \<in> set [9, 10, 11, 12, 13, 28, 29, 30, 31, 32, 133, 160, 5760, 8232, 8233, 8239, 8287, 12288]
     \<or> (8192 \<le> c \<and> c \<le> 8202)"

definition strip :: "pystr \<Rightarrow> pystr" where
  "strip s = rev (dropWhile py_isspace (rev (dropWhile py_isspace s)))"

definition split1 :: "pystr \<Rightarrow> pystr list" where
  "split1 s =
     (if 32 \<in> set s
      then [takeWhile (\<lambda>c. c \<noteq> 32) s, tl (dropWhile (\<lambda>c. c \<noteq> 32) s)]
      else [s])"

text \<open>
  \<^verbatim>\<open>json.dumps\<close> of a list of \<open>(key, value)\<close> tuples with the default settings:
  tuples become arrays, the separators are \<^verbatim>\<open>", "\<close>, and every character outside
  the printable ASCII range is escaped (\<^verbatim>\<open>ensure_ascii\<close>), one beyond the basic
  plane as a surrogate pair.
\<close>

definition hex_digit :: "nat \<Rightarrow> nat" where
  "hex_digit d = (if d < 10 then 48 + d else 87 + d)"

definition u_escape :: "nat \<Rightarrow> pystr" where
  "u_escape n =
     [92, 117, hex_digit (n div 4096 mod 16), hex_digit (n div 256 mod 16),
      hex_digit (n div 16 mod 16), hex_digit (n mod 16)]"

definition json_char :: "nat \<Rightarrow> pystr" where
  "json_char c =
     (if c = 34 then [92, 34]
      else if c = 92 then [92, 92]
      else if c = 10 then [92, 110]
      else if c = 13 then [92, 114]
      else if c = 9 then [92, 116]
      else if c = 12 then [92, 102]
      else if c = 8 then [92, 98]
      else if 32 \<le> c \<and> c \<le> 126 then [c]
      else if c < 0x10000 then u_escape c
      else u_escape (0xD800 + (c - 0x10000) div 1024) @ u_escape (0xDC00 + (c - 0x10000) mod 1024))"

definition json_string :: "pystr \<Rightarrow> pystr" where
  "json_string s = [34] @ concat (map json_char s) @ [34]"

fun join :: "pystr \<Rightarrow> pystr list \<Rightarrow> pystr" where
  "join sep [] = []"
| "join sep [x] = x"
| "join sep (x # y # ys) = x @ sep @ join sep (y # ys)"

definition json_dumps :: "(pystr \<times> pystr) list \<Rightarrow> pystr" where
  "json_dumps results =
     [91] @ join (ascii '', '')
              (map (\<lambda>(key, value). [91] @ json_string key @ ascii '', '' @ json_string value @ [93])
                 results)
     @ [93]"

text \<open>
  \<^verbatim>\<open>ThreadedTCPRequestHandler.handle\<close>. \<open>received\<close> is what \<^verbatim>\<open>recv(1024)\<close>
  returned, \<open>now\<close> the clock reading of the store call, \<open>exc_text e\<close> the text
  \<^verbatim>\<open>str(e)\<close> of an exception (a parameter: the messages belong to the Python
  library). The result is what \<^verbatim>\<open>sendall\<close> sent, \<open>None\<close> when the handler raised
  before sending, and the store afterwards. Decoding the request happens outside
  the \<^verbatim>\<open>try\<close>. The \<^verbatim>\<open>BATCHPUT\<close> branch is \<^verbatim>\<open>pass\<close>: the response stays the empty
  string it was initialised to. \<^verbatim>\<open>server.shutdown()\<close> stops the accept loop and
  does not touch the store, so the \<^verbatim>\<open>SHUTDOWN\<close> branch only answers.
\<close>

definition respond :: "(error \<Rightarrow> pystr) \<Rightarrow> error + pystr \<Rightarrow> pystr" where
  "respond exc_text r =
     (case r of Inl e \<Rightarrow> ascii ''ERROR '' @ exc_text e @ [10] | Inr response \<Rightarrow> response)"

definition handle ::
  "(error \<Rightarrow> pystr) \<Rightarrow> byte list \<Rightarrow> int \<Rightarrow> kvstore \<Rightarrow> byte list option \<times> kvstore" where
  "handle exc_text received now store =
    (case utf8_decode received of
       None \<Rightarrow> (None, store)
     | Some text \<Rightarrow>
       (let data = strip text in
        if data = ascii ''SHUTDOWN'' then (utf8_encode (ascii ''OK'' @ [10]), store)
        else
          (case split1 data of
             [] \<Rightarrow> (None, store)
           | command # args \<Rightarrow>
             (let (r, store') =
               (if command = ascii ''PUT'' then
                  (case args of
                     [] \<Rightarrow> (Inl IndexError, store)
                   | a # _ \<Rightarrow>
                       (case split1 a of
                          [key, value] \<Rightarrow>
                            (case put now key value store of
                               (Inl e, store') \<Rightarrow> (Inl e, store')
                             | (Inr ok, store') \<Rightarrow> (Inr (ascii ''OK'' @ [10]), store'))
                        | _ \<Rightarrow> (Inl ValueError, store)))
                else if command = ascii ''READ'' then
                  (case args of
                     [] \<Rightarrow> (Inl IndexError, store)
                   | key # _ \<Rightarrow>
                       (case read key store of
                          Inl e \<Rightarrow> (Inl e, store)
                        | Inr None \<Rightarrow> (Inr (ascii ''OK NULL'' @ [10]), store)
                        | Inr (Some value) \<Rightarrow> (Inr (ascii ''OK '' @ value @ [10]), store)))
                else if command = ascii ''DELETE'' then
                  (case args of
                     [] \<Rightarrow> (Inl IndexError, store)
                   | key # _ \<Rightarrow>
                       (case delete now key store of
                          (Inl e, store') \<Rightarrow> (Inl e, store')
                        | (Inr True, store') \<Rightarrow> (Inr (ascii ''OK'' @ [10]), store')
                        | (Inr False, store') \<Rightarrow> (Inr (ascii ''ERROR Key not found'' @ [10]), store')))
                else if command = ascii ''READRANGE'' then
                  (case args of
                     [] \<Rightarrow> (Inl IndexError, store)
                   | a # _ \<Rightarrow>
                       (case split1 a of
                          [start_key, end_key] \<Rightarrow>
                            (case read_key_range start_key end_key store of
                               Inl e \<Rightarrow> (Inl e, store)
                             | Inr results \<Rightarrow>
                                 (Inr (ascii ''OK '' @ json_dumps results @ [10]), store))
                        | _ \<Rightarrow> (Inl ValueError, store)))
                else if command = ascii ''BATCHPUT'' then (Inr [], store)
                else (Inr (ascii ''ERROR Invalid command'' @ [10]), store))
              in (utf8_encode (respond exc_text r), store')))))"

section \<open>The log as a sequence of records\<close>

text \<open>
  The definitions of this section are not code of the server: they describe
  the data file as the sequence of records of the specification (section 3),
  decode it the way the record codec of section 4.1 does, and give the
  vocabulary in which the claims are stated: the records of a log with their
  offsets, the index a replay builds from them, a sequence of engine calls, and
  the last-writer-wins model.
\<close>

text \<open>
  A record of the log (specification, section 3): timestamp, key, and the bytes
  of key and value. \<open>rec_bytes\<close> is its encoding, \<open>valid_rec\<close> says that the
  numbers fit their header fields and that the key bytes decode to the key.
\<close>

datatype log_record =
  LogRecord (rec_ts: nat) (rec_key: pystr) (rec_kb: "byte list") (rec_vb: "byte list")

definition rec_size :: "log_record \<Rightarrow> nat" where
  "rec_size r = 16 + length (rec_kb r) + length (rec_vb r)"

definition rec_header :: "log_record \<Rightarrow> byte list" where
  "rec_header r = be_bytes 8 (rec_ts r) @ be_bytes 4 (length (rec_kb r)) @ be_bytes 4 (length (rec_vb r))"

definition rec_bytes :: "log_record \<Rightarrow> byte list" where
  "rec_bytes r = rec_header r @ rec_kb r @ rec_vb r"

definition valid_rec :: "log_record \<Rightarrow> bool" where
  "valid_rec r \<longleftrightarrow>
     rec_ts r < 2 ^ 64 \<and> length (rec_kb r) < 2 ^ 32 \<and> length (rec_vb r) < 2 ^ 32 \<and>
     utf8_decode (rec_kb r) = Some (rec_key r)"

text \<open>
  The records of a data file with their offsets, decoded front to back as the
  record codec of section 4.1 does: decoding stops at the first header that is
  not complete, body that is short, or key that does not decode.
\<close>

function scan_log :: "nat \<Rightarrow> byte list \<Rightarrow> (nat \<times> log_record) list" where
  "scan_log pos rest =
    (case struct_unpack (take 16 rest) of
       Inl e \<Rightarrow> []
     | Inr (timestamp, key_size, value_size) \<Rightarrow>
         if length rest < 16 + key_size + value_size then []
         else
           (case utf8_decode (take key_size (drop 16 rest)) of
              None \<Rightarrow> []
            | Some key \<Rightarrow>
                (pos, LogRecord timestamp key (take key_size (drop 16 rest))
                        (take value_size (drop (16 + key_size) rest)))
                # scan_log (pos + 16 + key_size + value_size)
                    (drop (16 + key_size + value_size) rest)))"
  by pat_completeness auto

termination
  by (relation "measure (\<lambda>(pos, rest). length rest)")
     (auto simp: struct_unpack_def split: if_splits)

declare scan_log.simps [simp del]

definition log_records :: "kvstore \<Rightarrow> (nat \<times> log_record) list" where
  "log_records s = scan_log 0 (case data_file s of None \<Rightarrow> [] | Some bytes \<Rightarrow> bytes)"

text \<open>
  \<open>layout pos rs\<close> gives every record of \<open>rs\<close> the offset it has when the
  records are written one after the other from \<open>pos\<close> on; \<open>index_step\<close> is what
  one round of the replay loop does to the store for a record at an offset.
\<close>

fun layout :: "nat \<Rightarrow> log_record list \<Rightarrow> (nat \<times> log_record) list" where
  "layout pos [] = []"
| "layout pos (r # rs) = (pos, r) # layout (pos + rec_size r) rs"

definition index_step :: "kvstore \<Rightarrow> nat \<times> log_record \<Rightarrow> kvstore" where
  "index_step s = (\<lambda>(pos, r).
     \<lparr>data_file = data_file s,
      keys = AList.update (rec_key r) (pos, rec_size r, int (rec_ts r)) (keys s),
      data_size = data_size s + rec_size r,
      deleted_size = (case map_of (keys s) (rec_key r) of
                        Some (old_pos, old_size, _) \<Rightarrow> deleted_size s + old_size
                      | None \<Rightarrow> deleted_size s)\<rparr>)"

text \<open>
  \<open>replay rs\<close> is the index (with its counters) that a replay of the records
  \<open>rs\<close> builds. A store is \<open>consistent\<close> with \<open>rs\<close> when its file is the
  encoding of \<open>rs\<close> and its index and counters are that replay. \<open>latest L key\<close>
  is the last record of \<open>key\<close> in \<open>L\<close>, with its offset.
\<close>

definition empty_store :: "byte list option \<Rightarrow> kvstore" where
  "empty_store file = \<lparr>data_file = file, keys = [], data_size = 0, deleted_size = 0\<rparr>"

definition log_of :: "kvstore \<Rightarrow> byte list" where
  "log_of s = (case data_file s of None \<Rightarrow> [] | Some bytes \<Rightarrow> bytes)"

definition log_bytes :: "log_record list \<Rightarrow> byte list" where
  "log_bytes rs = concat (map rec_bytes rs)"

definition replay :: "log_record list \<Rightarrow> kvstore" where
  "replay rs = foldl index_step (empty_store None) (layout 0 rs)"

definition consistent :: "log_record list \<Rightarrow> kvstore \<Rightarrow> bool" where
  "consistent rs s \<longleftrightarrow>
     list_all valid_rec rs \<and> log_of s = log_bytes rs \<and>
     keys s = keys (replay rs) \<and> data_size s = length (log_bytes rs) \<and>
     deleted_size s = deleted_size (replay rs)"

definition latest :: "(nat \<times> log_record) list \<Rightarrow> pystr \<Rightarrow> (nat \<times> log_record) option" where
  "latest L = map_of (rev (map (\<lambda>(p, r). (rec_key r, (p, r))) L))"

definition entry_of :: "nat \<times> log_record \<Rightarrow> entry" where
  "entry_of = (\<lambda>(p, r). (p, rec_size r, int (rec_ts r)))"

text \<open>
  The two steps that \<^verbatim>\<open>put\<close>, \<^verbatim>\<open>delete\<close> and \<^verbatim>\<open>batch_put\<close> are made of:
  evaluating the trigger and compacting if it holds, and the append with its
  index update. \<open>new_record\<close> is the record an append writes, \<open>None\<close> when the
  append raises before it writes.
\<close>

definition maybe_compact :: "kvstore \<Rightarrow> error + kvstore" where
  "maybe_compact s =
    (case compaction_due s of
       Inl e \<Rightarrow> Inl e
     | Inr due \<Rightarrow> if due then compact s else Inr s)"

definition append_entry :: "int \<Rightarrow> pystr \<Rightarrow> pystr \<Rightarrow> kvstore \<Rightarrow> (error + bool) \<times> kvstore" where
  "append_entry now key value s =
    (case utf8_encode value of
       None \<Rightarrow> (Inl UnicodeEncodeError, s)
     | Some value_bytes \<Rightarrow>
     (case utf8_encode key of
       None \<Rightarrow> (Inl UnicodeEncodeError, s)
     | Some key_bytes \<Rightarrow>
     (case struct_pack now (length key_bytes) (length value_bytes) of
       Inl e \<Rightarrow> (Inl e, s)
     | Inr header \<Rightarrow>
         (Inr True,
          \<lparr>data_file = Some (log_of s @ header @ key_bytes @ value_bytes),
           keys = AList.update key (length (log_of s), 16 + length key_bytes + length value_bytes, now)
                    (keys s),
           data_size = data_size s + (16 + length key_bytes + length value_bytes),
           deleted_size = (case map_of (keys s) key of
                             Some (old_pos, old_size, _) \<Rightarrow> deleted_size s + old_size
                           | None \<Rightarrow> deleted_size s)\<rparr>))))"

definition new_record :: "int \<Rightarrow> pystr \<Rightarrow> pystr \<Rightarrow> log_record option" where
  "new_record now key value =
    (case utf8_encode value of
       None \<Rightarrow> None
     | Some value_bytes \<Rightarrow>
     (case utf8_encode key of
       None \<Rightarrow> None
     | Some key_bytes \<Rightarrow>
         if 0 \<le> now \<and> now < 2 ^ 64 \<and> length key_bytes < 2 ^ 32 \<and> length value_bytes < 2 ^ 32
         then Some (LogRecord (nat now) key key_bytes value_bytes)
         else None))"

text \<open>
  \<open>last_rec rs key\<close> is the last record of \<open>key\<close> in \<open>rs\<close>; \<open>live_size\<close> sums the
  lengths the index holds. \<open>reloc\<close> and \<open>copied\<close> describe what the compaction
  loop leaves: the index entries in their order at the new offsets, and the
  bytes it copied.
\<close>

definition last_rec :: "log_record list \<Rightarrow> pystr \<Rightarrow> log_record option" where
  "last_rec rs k = map_option snd (latest (layout 0 rs) k)"

definition live_size :: "(pystr \<times> entry) list \<Rightarrow> nat" where
  "live_size ks = sum_list (map (\<lambda>(k, e). fst (snd e)) ks)"

fun reloc :: "byte list \<Rightarrow> nat \<Rightarrow> (pystr \<times> entry) list \<Rightarrow> (pystr \<times> entry) list" where
  "reloc old p [] = []"
| "reloc old p ((k, (pos, sz, ts)) # xs) =
     (k, (p, sz, ts)) # reloc old (p + length (take sz (drop pos old))) xs"

definition copied :: "byte list \<Rightarrow> (pystr \<times> entry) list \<Rightarrow> byte list" where
  "copied old items = concat (map (\<lambda>(k, (pos, sz, ts)). take sz (drop pos old)) items)"

definition index_item :: "nat \<times> log_record \<Rightarrow> pystr \<times> entry" where
  "index_item x = (rec_key (snd x), entry_of x)"

text \<open>
  \<open>survivors rs\<close> are the records a compaction keeps: the last record of every
  key, in the order of the index. \<open>visible\<close> is what \<^verbatim>\<open>read\<close> makes of the last
  record of a key.
\<close>

definition survivors :: "log_record list \<Rightarrow> log_record list" where
  "survivors rs = map snd (List.map_filter (latest (layout 0 rs)) (map fst (keys (replay rs))))"

definition visible :: "log_record option \<Rightarrow> error + pystr option" where
  "visible ro =
    (case ro of
       None \<Rightarrow> Inr None
     | Some r \<Rightarrow>
         (case utf8_decode (rec_vb r) of
            None \<Rightarrow> Inl UnicodeDecodeError
          | Some value \<Rightarrow> if value = DELETED then Inr None else Inr (Some value)))"

text \<open>
  Sequences of engine calls. A call that raises leaves the store as it is at
  that point (the handler catches the exception); \<open>Reopen\<close> constructs a new
  store on the data file, and if that raises there is no store to go on with.
  \<open>fresh\<close> is the store \<^verbatim>\<open>KeyValueStore()\<close> builds when there is no data file.
\<close>

datatype op =
    Put int pystr pystr
  | Delete int pystr
  | BatchPut "(int \<times> pystr \<times> pystr) list"
  | Reopen

fun exec :: "op \<Rightarrow> kvstore \<Rightarrow> error + kvstore" where
  "exec (Put now key value) s = Inr (snd (put now key value s))"
| "exec (Delete now key) s = Inr (snd (delete now key s))"
| "exec (BatchPut items) s = Inr (snd (batch_put items s))"
| "exec Reopen s = load_from_disk s"

fun run :: "op list \<Rightarrow> kvstore \<Rightarrow> error + kvstore" where
  "run [] s = Inr s"
| "run (op # ops) s = (case exec op s of Inl e \<Rightarrow> Inl e | Inr s' \<Rightarrow> run ops s')"

definition fresh :: kvstore where
  "fresh = \<lparr>data_file = None, keys = [], data_size = 0, deleted_size = 0\<rparr>"

text \<open>
  The in-memory model of the specification (section 8, property 3): last writer
  wins per key, a delete of a key the model holds writes the tombstone value,
  \<open>model_read\<close> hides deleted keys. Only the writes the engine accepts (valid
  strings whose lengths and timestamp fit the header) reach the model.
  \<open>abstracts m s\<close> ties a store to a model: the store is consistent with a log
  whose last record of every key is the model's write.
\<close>

definition accepted :: "int \<Rightarrow> pystr \<Rightarrow> pystr \<Rightarrow> bool" where
  "accepted now key value \<longleftrightarrow> new_record now key value \<noteq> None"

fun model_batch :: "(int \<times> pystr \<times> pystr) list \<Rightarrow> (pystr \<rightharpoonup> int \<times> pystr) \<Rightarrow> (pystr \<rightharpoonup> int \<times> pystr)" where
  "model_batch [] m = m"
| "model_batch ((now, key, value) # items) m =
     (if accepted now key value then model_batch items (m(key \<mapsto> (now, value))) else m)"

fun model_step :: "(pystr \<rightharpoonup> int \<times> pystr) \<Rightarrow> op \<Rightarrow> (pystr \<rightharpoonup> int \<times> pystr)" where
  "model_step m (Put now key value) = (if accepted now key value then m(key \<mapsto> (now, value)) else m)"
| "model_step m (Delete now key) =
     (if m key \<noteq> None \<and> accepted now key DELETED then m(key \<mapsto> (now, DELETED)) else m)"
| "model_step m (BatchPut items) = model_batch items m"
| "model_step m Reopen = m"

definition model :: "op list \<Rightarrow> (pystr \<rightharpoonup> int \<times> pystr)" where
  "model ops = foldl model_step Map.empty ops"

definition model_read :: "(pystr \<rightharpoonup> int \<times> pystr) \<Rightarrow> pystr \<Rightarrow> pystr option" where
  "model_read m key =
     (case m key of
        None \<Rightarrow> None
      | Some (now, value) \<Rightarrow> if value = DELETED then None else Some value)"

definition recs_of :: "(pystr \<rightharpoonup> int \<times> pystr) \<Rightarrow> pystr \<Rightarrow> log_record option" where
  "recs_of m key = (case m key of None \<Rightarrow> None | Some (now, value) \<Rightarrow> new_record now key value)"

definition abstracts :: "(pystr \<rightharpoonup> int \<times> pystr) \<Rightarrow> kvstore \<Rightarrow> bool" where
  "abstracts m s \<longleftrightarrow>
     (\<exists>rs. consistent rs s \<and> last_rec rs = recs_of m) \<and>
     (\<forall>key now value. m key = Some (now, value) \<longrightarrow> accepted now key value)"

text \<open>
  \<open>encode_record\<close> is the record of section 3 for a timestamp, a key and a
  value. \<open>written_keys\<close> are the keys a call puts or deletes, \<open>put_keys\<close> the
  keys it puts. \<open>garbage_bytes\<close> sums the lengths of the records of the log
  whose offset no index entry holds.
\<close>

definition encode_record :: "int \<Rightarrow> pystr \<Rightarrow> pystr \<Rightarrow> byte list option" where
  "encode_record now key value = map_option rec_bytes (new_record now key value)"

fun written_keys :: "op \<Rightarrow> pystr list" where
  "written_keys (Put now key value) = [key]"
| "written_keys (Delete now key) = [key]"
| "written_keys (BatchPut items) = map (\<lambda>(now, key, value). key) items"
| "written_keys Reopen = []"

fun put_keys :: "op \<Rightarrow> pystr list" where
  "put_keys (Put now key value) = [key]"
| "put_keys (Delete now key) = []"
| "put_keys (BatchPut items) = map (\<lambda>(now, key, value). key) items"
| "put_keys Reopen = []"

definition index_offsets :: "kvstore \<Rightarrow> nat list" where
  "index_offsets s = map (\<lambda>(key, (pos, sz, timestamp)). pos) (keys s)"

definition garbage_bytes :: "kvstore \<Rightarrow> nat" where
  "garbage_bytes s =
     sum_list (map (\<lambda>(pos, r). rec_size r)
       (filter (\<lambda>(pos, r). pos \<notin> set (index_offsets s)) (log_records s)))"

text \<open>\<open>stale_bytes\<close> sums the records that are not the last of their key.\<close>

definition stale_bytes :: "(nat \<times> log_record) list \<Rightarrow> nat" where
  "stale_bytes L =
     sum_list (map (\<lambda>x. rec_size (snd x)) (filter (\<lambda>x. latest L (rec_key (snd x)) \<noteq> Some x) L))"

text \<open>
  The invariants 1 to 4 of the specification (section 3) as predicates on a
  store; they are spelled out where the compaction postcondition is stated.
\<close>

definition entry_ok :: "(nat \<times> log_record) list \<Rightarrow> pystr \<times> entry \<Rightarrow> bool" where
  "entry_ok L = (\<lambda>(key, (pos, sz, timestamp)).
     (case map_of L pos of
        None \<Rightarrow> False
      | Some r \<Rightarrow> rec_key r = key \<and> rec_size r = sz \<and> int (rec_ts r) = timestamp))"

definition inv1 :: "kvstore \<Rightarrow> bool" where
  "inv1 s \<longleftrightarrow> distinct (map fst (keys s)) \<and> list_all (entry_ok (log_records s)) (keys s)"

definition inv2 :: "kvstore \<Rightarrow> bool" where
  "inv2 s \<longleftrightarrow> (case load_from_disk s of Inl e \<Rightarrow> False | Inr s' \<Rightarrow> keys s' = keys s)"

definition inv3 :: "kvstore \<Rightarrow> bool" where
  "inv3 s \<longleftrightarrow> data_size s = length (log_of s)"

definition inv4 :: "kvstore \<Rightarrow> bool" where
  "inv4 s \<longleftrightarrow> deleted_size s \<le> data_size s"

definition invariants :: "kvstore \<Rightarrow> bool" where
  "invariants s \<longleftrightarrow> inv1 s \<and> inv2 s \<and> inv3 s \<and> inv4 s"

text \<open>
  \<open>batch_appends\<close> appends item after item with no trigger between them.
  \<open>delete_as_claimed\<close> and \<open>batch_as_claimed\<close> evaluate the trigger before every
  append, as the claim on trigger placement words it. \<open>range_model\<close> is the
  result the claim on range reads describes: the keys of the index inside the
  range in ascending order, each with the value \<^verbatim>\<open>read\<close> returns for it, keys
  without one left out.
\<close>

fun batch_appends :: "(int \<times> pystr \<times> pystr) list \<Rightarrow> kvstore \<Rightarrow> (error + bool) \<times> kvstore" where
  "batch_appends [] s = (Inr True, s)"
| "batch_appends ((now, key, value) # items) s =
    (case append_entry now key value s of
       (Inl e, s') \<Rightarrow> (Inl e, s')
     | (Inr ok, s') \<Rightarrow> batch_appends items s')"

definition delete_as_claimed :: "int \<Rightarrow> pystr \<Rightarrow> kvstore \<Rightarrow> (error + bool) \<times> kvstore" where
  "delete_as_claimed now key s =
    (if map_of (keys s) key = None then (Inr False, s)
     else
       (case maybe_compact s of
          Inl e \<Rightarrow> (Inl e, s)
        | Inr s0 \<Rightarrow>
            (case append_entry now key DELETED s0 of
               (Inl e, s1) \<Rightarrow> (Inl e, s1)
             | (Inr ok, s1) \<Rightarrow>
                 (case maybe_compact s1 of
                    Inl e \<Rightarrow> (Inl e, s1)
                  | Inr s2 \<Rightarrow> (Inr True, s2)))))"

fun batch_as_claimed :: "(int \<times> pystr \<times> pystr) list \<Rightarrow> kvstore \<Rightarrow> (error + bool) \<times> kvstore" where
  "batch_as_claimed [] s = (Inr True, s)"
| "batch_as_claimed ((now, key, value) # items) s =
    (case maybe_compact s of
       Inl e \<Rightarrow> (Inl e, s)
     | Inr s0 \<Rightarrow>
         (case append_entry now key value s0 of
            (Inl e, s1) \<Rightarrow> (Inl e, s1)
          | (Inr ok, s1) \<Rightarrow> batch_as_claimed items s1))"

definition range_model :: "pystr \<Rightarrow> pystr \<Rightarrow> kvstore \<Rightarrow> (pystr \<times> pystr) list" where
  "range_model start_key end_key s =
     concat (map (\<lambda>key. case read key s of Inr (Some value) \<Rightarrow> [(key, value)] | _ \<Rightarrow> [])
               (filter (\<lambda>key. start_key \<le> key \<and> key \<le> end_key) (sort (map fst (keys s)))))"

text \<open>\<open>value_at\<close> is the value both read paths decode at an offset.\<close>

definition value_at :: "byte list \<Rightarrow> nat \<Rightarrow> error + pystr" where
  "value_at f pos =
    (case struct_unpack (take 16 (drop pos f)) of
       Inl e \<Rightarrow> Inl e
     | Inr (timestamp, key_size, value_size) \<Rightarrow>
         (case utf8_decode (take value_size (drop (pos + 16 + key_size) f)) of
            None \<Rightarrow> Inl UnicodeDecodeError
          | Some value \<Rightarrow> Inr value))"

section \<open>Lemmas\<close>

subsection \<open>Byte order and UTF-8: decoding inverts encoding\<close>

lemma length_be_bytes [simp]: "length (be_bytes n v) = n"
  by (induction n arbitrary: v) auto

lemma be_nat_snoc: "be_nat (xs @ [b]) = be_nat xs * 256 + unat b"
  by (simp add: be_nat_def)

lemma be_nat_be_bytes: "v < 256 ^ n \<Longrightarrow> be_nat (be_bytes n v) = v"
proof (induction n arbitrary: v)
  case 0
  then show ?case by (simp add: be_nat_def)
next
  case (Suc n)
  have "v div 256 < 256 ^ n"
    using Suc.prems by (simp add: less_mult_imp_div_less mult.commute)
  then have "be_nat (be_bytes n (v div 256)) = v div 256"
    by (rule Suc.IH)
  moreover have "unat (of_nat (v mod 256) :: byte) = v mod 256"
    by (simp add: unat_of_nat)
  ultimately show ?case
    by (simp add: be_nat_snoc)
qed

lemma be_bytes_numeral:
  "be_bytes (numeral k) v = be_bytes (pred_numeral k) (v div 256) @ [of_nat (v mod 256)]"
proof -
  have "be_bytes (Suc (pred_numeral k)) v = be_bytes (pred_numeral k) (v div 256) @ [of_nat (v mod 256)]"
    by (rule be_bytes.simps)
  then show ?thesis by (simp only: numeral_eq_Suc [symmetric])
qed

lemma unat_byte: "n < 256 \<Longrightarrow> unat (of_nat n :: byte) = n"
  by (simp add: unat_of_nat)

lemma utf8_char_nonempty: "utf8_char c = Some bs \<Longrightarrow> bs \<noteq> []"
  by (auto simp: utf8_char_def split: if_splits)

lemma utf8_next_2:
  assumes "unat b0 = 0xC0 + q" "unat b1 = 0x80 + m" "2 \<le> q" "q < 32" "m < 64"
    "c = q * 64 + m"
  shows "utf8_next (b0 # b1 # r) = Some (c, r)"
  using assms by (simp add: is_cont_def cont_bits_def Let_def)

lemma utf8_next_3:
  assumes "unat b0 = 0xE0 + q" "unat b1 = 0x80 + m1" "unat b2 = 0x80 + m2"
    "q < 16" "m1 < 64" "m2 < 64" "c = q * 4096 + m1 * 64 + m2"
    "0x800 \<le> c" "\<not> (0xD800 \<le> c \<and> c < 0xE000)"
  shows "utf8_next (b0 # b1 # b2 # r) = Some (c, r)"
  using assms by (simp add: is_cont_def cont_bits_def Let_def)

lemma utf8_next_4:
  assumes "unat b0 = 0xF0 + q" "unat b1 = 0x80 + m1" "unat b2 = 0x80 + m2" "unat b3 = 0x80 + m3"
    "q < 5" "m1 < 64" "m2 < 64" "m3 < 64" "c = q * 262144 + m1 * 4096 + m2 * 64 + m3"
    "0x10000 \<le> c" "c < 0x110000"
  shows "utf8_next (b0 # b1 # b2 # b3 # r) = Some (c, r)"
  using assms by (simp add: is_cont_def cont_bits_def Let_def)

lemma split_64: "(c::nat) = c div 64 * 64 + c mod 64"
  by simp

lemma split_4096: "(c::nat) = c div 4096 * 4096 + c div 64 mod 64 * 64 + c mod 64"
proof -
  have "c div 64 = c div 64 div 64 * 64 + c div 64 mod 64" by simp
  moreover have "c div 64 div 64 = c div 4096" by (simp only: div_mult2_eq [symmetric, of c 64 64]) simp
  ultimately have "c div 64 * 64 = c div 4096 * 4096 + c div 64 mod 64 * 64" by simp
  then show ?thesis using split_64 [of c] by simp
qed

lemma split_262144:
  "(c::nat) = c div 262144 * 262144 + c div 4096 mod 64 * 4096 + c div 64 mod 64 * 64 + c mod 64"
proof -
  have "c div 4096 = c div 4096 div 64 * 64 + c div 4096 mod 64" by simp
  moreover have "c div 4096 div 64 = c div 262144" by (simp only: div_mult2_eq [symmetric, of c 4096 64]) simp
  ultimately have "c div 4096 * 4096 = c div 262144 * 262144 + c div 4096 mod 64 * 4096" by simp
  then show ?thesis using split_4096 [of c] by simp
qed

lemma utf8_next_char: "utf8_char c = Some bs \<Longrightarrow> utf8_next (bs @ r) = Some (c, r)"
proof -
  assume a: "utf8_char c = Some bs"
  have m64: "\<And>x::nat. x mod 64 < 64" by simp
  have ub: "\<And>x. unat (of_nat (0x80 + x mod 64) :: byte) = 0x80 + x mod 64"
    by (rule unat_byte) simp
  consider (a1) "c < 0x80" | (a2) "0x80 \<le> c" "c < 0x800"
    | (a3) "0x800 \<le> c" "c < 0x10000" "\<not> (0xD800 \<le> c \<and> c < 0xE000)"
    | (a4) "0x10000 \<le> c" "c < 0x110000"
    using a by (auto simp: utf8_char_def split: if_splits) 
  then show ?thesis
  proof cases
    case a1
    then show ?thesis using a by (auto simp: utf8_char_def unat_byte)
  next
    case a2
    have b: "bs = [of_nat (0xC0 + c div 64), of_nat (0x80 + c mod 64)]"
      using a a2 by (auto simp: utf8_char_def)
    have q: "2 \<le> c div 64" "c div 64 < 32"
      using a2 by (simp_all add: le_div_geq less_mult_imp_div_less)
    have u: "unat (of_nat (0xC0 + c div 64) :: byte) = 0xC0 + c div 64"
      using q by (intro unat_byte) simp
    have "utf8_next (of_nat (0xC0 + c div 64) # of_nat (0x80 + c mod 64) # r)
        = Some (c, r)"
      by (rule utf8_next_2 [OF u ub q m64 split_64])
    then show ?thesis unfolding b by (simp only: append_Cons append_Nil)
  next
    case a3
    have b: "bs = [of_nat (0xE0 + c div 4096), of_nat (0x80 + c div 64 mod 64), of_nat (0x80 + c mod 64)]"
      using a a3 by (auto simp: utf8_char_def)
    have q: "c div 4096 < 16" using a3 by (simp add: less_mult_imp_div_less)
    have u: "unat (of_nat (0xE0 + c div 4096) :: byte) = 0xE0 + c div 4096"
      using q by (intro unat_byte) simp
    have "utf8_next (of_nat (0xE0 + c div 4096) # of_nat (0x80 + c div 64 mod 64)
          # of_nat (0x80 + c mod 64) # r) = Some (c, r)"
      by (rule utf8_next_3 [OF u ub ub q m64 m64 split_4096 a3(1,3)])
    then show ?thesis unfolding b by (simp only: append_Cons append_Nil)
  next
    case a4
    have b: "bs = [of_nat (0xF0 + c div 262144), of_nat (0x80 + c div 4096 mod 64),
             of_nat (0x80 + c div 64 mod 64), of_nat (0x80 + c mod 64)]"
      using a a4 by (auto simp: utf8_char_def)
    have q: "c div 262144 < 5" using a4 by (simp add: less_mult_imp_div_less)
    have u: "unat (of_nat (0xF0 + c div 262144) :: byte) = 0xF0 + c div 262144"
      using q by (intro unat_byte) simp
    have "utf8_next (of_nat (0xF0 + c div 262144) # of_nat (0x80 + c div 4096 mod 64)
          # of_nat (0x80 + c div 64 mod 64) # of_nat (0x80 + c mod 64) # r) = Some (c, r)"
      by (rule utf8_next_4 [OF u ub ub ub q m64 m64 m64 split_262144 a4])
    then show ?thesis unfolding b by (simp only: append_Cons append_Nil)
  qed
qed

lemma utf8_decode_Nil [simp]: "utf8_decode [] = Some []"
  by (simp add: utf8_decode.simps)

lemma utf8_decode_encode: "utf8_encode cs = Some bs \<Longrightarrow> utf8_decode bs = Some cs"
proof (induction cs arbitrary: bs)
  case Nil
  then show ?case by simp
next
  case (Cons c cs)
  from Cons.prems obtain hd_bytes tl_bytes where
    h: "utf8_char c = Some hd_bytes" and t: "utf8_encode cs = Some tl_bytes"
    and bs: "bs = hd_bytes @ tl_bytes"
    by (auto split: option.splits)
  have "utf8_decode tl_bytes = Some cs" using t by (rule Cons.IH)
  moreover have "utf8_next (hd_bytes @ tl_bytes) = Some (c, tl_bytes)"
    using h by (rule utf8_next_char)
  moreover have "hd_bytes @ tl_bytes \<noteq> []"
    using utf8_char_nonempty [OF h] by simp
  ultimately show ?case unfolding bs
    by (subst utf8_decode.simps) simp
qed

subsection \<open>Replaying and decoding a log of complete records\<close>

lemma length_rec_header [simp]: "length (rec_header r) = 16"
  by (simp add: rec_header_def)

lemma length_rec_bytes [simp]: "length (rec_bytes r) = rec_size r"
  by (simp add: rec_bytes_def rec_size_def)

lemma unpack_header:
  assumes "valid_rec r"
  shows "struct_unpack (rec_header r) = Inr (rec_ts r, length (rec_kb r), length (rec_vb r))"
proof -
  have p: "(2::nat) ^ 64 = 256 ^ 8" "(2::nat) ^ 32 = 256 ^ 4" by simp_all
  have "be_nat (be_bytes 8 (rec_ts r)) = rec_ts r"
    using assms by (intro be_nat_be_bytes) (simp add: valid_rec_def p)
  moreover have "be_nat (be_bytes 4 (length (rec_kb r))) = length (rec_kb r)"
    using assms by (intro be_nat_be_bytes) (simp add: valid_rec_def p)
  moreover have "be_nat (be_bytes 4 (length (rec_vb r))) = length (rec_vb r)"
    using assms by (intro be_nat_be_bytes) (simp add: valid_rec_def p)
  ultimately show ?thesis
    by (simp add: struct_unpack_def rec_header_def)
qed

lemma load_loop_Nil [simp]: "load_loop pos [] s = Inr s"
  by (simp add: load_loop.simps)

lemma rec_header_nonempty [simp]: "rec_header r \<noteq> []"
proof
  assume "rec_header r = []"
  then have "length (rec_header r) = 0" by simp
  then show False by simp
qed

lemma load_loop_record:
  assumes "valid_rec r"
  shows "load_loop pos (rec_bytes r @ rest) s =
         load_loop (pos + rec_size r) rest (index_step s (pos, r))"
proof -
  have k: "utf8_decode (rec_kb r) = Some (rec_key r)"
    using assms by (simp add: valid_rec_def)
  have e: "pos + 16 + length (rec_kb r) + length (rec_vb r) = pos + rec_size r"
    by (simp add: rec_size_def)
  have st: "(let entry_size = 16 + length (rec_kb r) + length (rec_vb r);
                 s1 = (case map_of (keys s) (rec_key r) of
                         Some (old_pos, old_size, _) \<Rightarrow>
                           s\<lparr>deleted_size := deleted_size s + old_size\<rparr>
                       | None \<Rightarrow> s)
             in s1\<lparr>keys := AList.update (rec_key r) (pos, entry_size, int (rec_ts r)) (keys s1),
                   data_size := data_size s1 + entry_size\<rparr>) = index_step s (pos, r)"
    by (cases "map_of (keys s) (rec_key r)")
       (auto simp: index_step_def rec_size_def Let_def)
  show ?thesis
    by (subst load_loop.simps)
       (simp add: rec_bytes_def unpack_header [OF assms] k e st)
qed

lemma scan_log_Nil [simp]: "scan_log pos [] = []"
  by (simp add: scan_log.simps struct_unpack_def)

lemma scan_log_record:
  assumes "valid_rec r"
  shows "scan_log pos (rec_bytes r @ rest) = (pos, r) # scan_log (pos + rec_size r) rest"
proof -
  have k: "utf8_decode (rec_kb r) = Some (rec_key r)"
    using assms by (simp add: valid_rec_def)
  show ?thesis
    by (subst scan_log.simps)
       (simp add: rec_bytes_def unpack_header [OF assms] k rec_size_def add.assoc)
qed

lemma load_loop_records:
  "list_all valid_rec rs \<Longrightarrow>
   load_loop pos (concat (map rec_bytes rs) @ rest) s =
   load_loop (pos + length (concat (map rec_bytes rs))) rest (foldl index_step s (layout pos rs))"
proof (induction rs arbitrary: pos s)
  case Nil
  then show ?case by simp
next
  case (Cons r rs)
  then show ?case
    by (simp add: load_loop_record add.assoc)
qed

lemma scan_log_records:
  "list_all valid_rec rs \<Longrightarrow>
   scan_log pos (concat (map rec_bytes rs) @ rest) =
   layout pos rs @ scan_log (pos + length (concat (map rec_bytes rs))) rest"
proof (induction rs arbitrary: pos)
  case Nil
  then show ?case by simp
next
  case (Cons r rs)
  then show ?case
    by (simp add: scan_log_record add.assoc)
qed

subsection \<open>The index that a replay builds\<close>

lemma log_bytes_simps [simp]:
  "log_bytes [] = []"
  "log_bytes (r # rs) = rec_bytes r @ log_bytes rs"
  "log_bytes (rs @ rs') = log_bytes rs @ log_bytes rs'"
  by (simp_all add: log_bytes_def)

lemma layout_append:
  "layout pos (rs @ rs') = layout pos rs @ layout (pos + length (log_bytes rs)) rs'"
  by (induction rs arbitrary: pos) (simp_all add: add.assoc)

lemma latest_Nil [simp]: "latest [] = Map.empty"
  by (simp add: latest_def)

lemma latest_snoc [simp]: "latest (L @ [(p, r)]) = (latest L)(rec_key r \<mapsto> (p, r))"
  by (simp add: latest_def)

lemma latest_mem: "latest L k = Some (p, r) \<Longrightarrow> (p, r) \<in> set L \<and> rec_key r = k"
  unfolding latest_def by (auto dest!: map_of_SomeD)

lemma data_file_index_step [simp]: "data_file (index_step s x) = data_file s"
  by (cases x) (simp add: index_step_def)

lemma data_file_foldl [simp]: "data_file (foldl index_step s L) = data_file s"
  by (induction L arbitrary: s) simp_all

lemma data_size_index_step [simp]: "data_size (index_step s (p, r)) = data_size s + rec_size r"
  by (simp add: index_step_def)

lemma keys_index_step [simp]:
  "keys (index_step s (p, r)) = AList.update (rec_key r) (entry_of (p, r)) (keys s)"
  by (simp add: index_step_def entry_of_def)

lemma deleted_index_step [simp]:
  "deleted_size (index_step s (p, r)) =
     deleted_size s + (case map_of (keys s) (rec_key r) of Some e \<Rightarrow> fst (snd e) | None \<Rightarrow> 0)"
  by (simp add: index_step_def split: option.splits)

lemma data_size_foldl [simp]:
  "data_size (foldl index_step s (layout pos rs)) = data_size s + length (log_bytes rs)"
  by (induction rs arbitrary: s pos) simp_all

lemma map_of_keys_foldl:
  "map_of (keys (foldl index_step s L)) k =
     (case latest L k of None \<Rightarrow> map_of (keys s) k | Some x \<Rightarrow> Some (entry_of x))"
proof (induction L rule: rev_induct)
  case Nil
  then show ?case by simp
next
  case (snoc x L)
  obtain p r where x: "x = (p, r)" by (cases x)
  show ?case using snoc
    by (simp add: x update_conv')
qed

lemma distinct_keys_foldl:
  "distinct (map fst (keys s)) \<Longrightarrow> distinct (map fst (keys (foldl index_step s L)))"
proof (induction L rule: rev_induct)
  case Nil
  then show ?case by simp
next
  case (snoc x L)
  obtain p r where x: "x = (p, r)" by (cases x)
  show ?case using snoc by (simp add: x distinct_update)
qed

lemma replay_snoc:
  "replay (rs @ [r]) = index_step (replay rs) (length (log_bytes rs), r)"
  by (simp add: replay_def layout_append)

lemma replay_Nil [simp]: "replay [] = empty_store None"
  by (simp add: replay_def)

lemma data_size_replay [simp]: "data_size (replay rs) = length (log_bytes rs)"
  by (simp add: replay_def empty_store_def)

lemma map_of_keys_replay:
  "map_of (keys (replay rs)) k = map_option entry_of (latest (layout 0 rs) k)"
  by (simp add: replay_def map_of_keys_foldl empty_store_def split: option.splits)

lemma distinct_keys_replay [simp]: "distinct (map fst (keys (replay rs)))"
  by (simp add: replay_def distinct_keys_foldl empty_store_def)

lemma layout_bytes:
  "(p, r) \<in> set (layout pos rs) \<Longrightarrow>
     pos \<le> p \<and> p + rec_size r \<le> pos + length (log_bytes rs) \<and>
     take (rec_size r) (drop (p - pos) (log_bytes rs)) = rec_bytes r"
proof (induction rs arbitrary: pos)
  case Nil
  then show ?case by simp
next
  case (Cons a rs)
  show ?case
  proof (cases "(p, r) = (pos, a)")
    case True
    then show ?thesis by simp
  next
    case False
    then have m: "(p, r) \<in> set (layout (pos + rec_size a) rs)"
      using Cons.prems by auto
    note ih = Cons.IH [OF m]
    have "p - pos = rec_size a + (p - (pos + rec_size a))"
      using ih by simp
    then have "drop (p - pos) (rec_bytes a @ log_bytes rs) = drop (p - (pos + rec_size a)) (log_bytes rs)"
      by simp
    then show ?thesis using ih by simp
  qed
qed

lemma empty_store_simps [simp]:
  "data_file (empty_store file) = file"
  "keys (empty_store file) = []"
  "data_size (empty_store file) = 0"
  "deleted_size (empty_store file) = 0"
  by (simp_all add: empty_store_def)

lemma reset_store:
  "s\<lparr>keys := [], data_size := 0, deleted_size := 0\<rparr> = empty_store (data_file s)"
  by (cases s) (simp add: empty_store_def)

lemma keys_foldl_file:
  "keys (foldl index_step s L) = keys (foldl index_step (s\<lparr>data_file := f\<rparr>) L) \<and>
   data_size (foldl index_step s L) = data_size (foldl index_step (s\<lparr>data_file := f\<rparr>) L) \<and>
   deleted_size (foldl index_step s L) = deleted_size (foldl index_step (s\<lparr>data_file := f\<rparr>) L)"
proof (induction L rule: rev_induct)
  case Nil
  then show ?case by simp
next
  case (snoc x L)
  then show ?case by (cases x) simp
qed

lemma load_from_disk_records:
  assumes "list_all valid_rec rs" "data_file s = Some (log_bytes rs)"
  shows "\<exists>s'. load_from_disk s = Inr s' \<and> data_file s' = data_file s \<and> consistent rs s'"
proof -
  let ?e = "empty_store (data_file s)"
  have e: "?e = (empty_store None)\<lparr>data_file := data_file s\<rparr>"
    by (simp add: empty_store_def)
  have "load_loop 0 (log_bytes rs @ []) ?e =
        load_loop (0 + length (log_bytes rs)) [] (foldl index_step ?e (layout 0 rs))"
    unfolding log_bytes_def using assms(1) by (rule load_loop_records)
  then have l: "load_from_disk s = Inr (foldl index_step ?e (layout 0 rs))"
    using assms(2) by (simp add: load_from_disk_def reset_store Let_def)
  have "consistent rs (foldl index_step ?e (layout 0 rs))"
    unfolding consistent_def replay_def e
    using assms keys_foldl_file [of "empty_store None" "layout 0 rs" "data_file s"]
    by (simp add: log_of_def)
  then show ?thesis using l by simp
qed

lemma consistent_fresh: "consistent [] (empty_store None)"
  by (simp add: consistent_def log_of_def replay_def)

subsection \<open>The writers as trigger and append\<close>

lemma put_factored:
  "put now key value s =
    (case maybe_compact s of
       Inl e \<Rightarrow> (Inl e, s)
     | Inr s1 \<Rightarrow> append_entry now key value s1)"
  by (auto simp: put_def maybe_compact_def append_entry_def log_of_def Let_def
           split: sum.splits option.splits)

lemma batch_loop_factored:
  "batch_loop ((now, key, value) # items) s =
    (case append_entry now key value s of
       (Inl e, s') \<Rightarrow> (Inl e, s')
     | (Inr ok, s') \<Rightarrow> batch_loop items s')"
  by (auto simp: append_entry_def log_of_def Let_def split: sum.splits option.splits)

lemma batch_put_factored:
  "batch_put items s =
    (case maybe_compact s of
       Inl e \<Rightarrow> (Inl e, s)
     | Inr s1 \<Rightarrow> batch_loop items (s1\<lparr>data_file := Some (log_of s1)\<rparr>))"
  by (auto simp: batch_put_def maybe_compact_def log_of_def split: sum.splits option.splits)

lemma delete_factored:
  "delete now key s =
    (if map_of (keys s) key = None then (Inr False, s)
     else
       (case append_entry now key DELETED s of
          (Inl e, s1) \<Rightarrow> (Inl e, s1)
        | (Inr ok, s1) \<Rightarrow>
            (case maybe_compact s1 of
               Inl e \<Rightarrow> (Inl e, s1)
             | Inr s2 \<Rightarrow> (Inr True, s2))))"
  by (auto simp: delete_def maybe_compact_def append_entry_def log_of_def Let_def
           split: sum.splits option.splits)

lemma new_record_valid: "new_record now key value = Some r \<Longrightarrow> valid_rec r \<and> rec_key r = key"
  by (auto simp: new_record_def valid_rec_def utf8_decode_encode split: option.splits if_splits)

lemma append_entry_rejected:
  "new_record now key value = None \<Longrightarrow> \<exists>e. append_entry now key value s = (Inl e, s)"
  by (auto simp: new_record_def append_entry_def struct_pack_def split: option.splits if_splits)

lemma append_entry_accepted:
  assumes "new_record now key value = Some r"
  shows "append_entry now key value s =
           (Inr True, (index_step s (length (log_of s), r))\<lparr>data_file := Some (log_of s @ rec_bytes r)\<rparr>)"
  using assms
  by (auto simp: new_record_def append_entry_def struct_pack_def index_step_def rec_bytes_def
        rec_header_def rec_size_def split: option.splits if_splits)

lemma consistent_append:
  assumes "consistent rs s" "valid_rec r"
  shows "consistent (rs @ [r]) ((index_step s (length (log_of s), r))\<lparr>data_file := Some (log_of s @ rec_bytes r)\<rparr>)"
  using assms
  by (simp add: consistent_def log_of_def replay_snoc split: option.splits)

subsection \<open>Live bytes, the threshold, and the compaction loop\<close>

lemma copied_simps [simp]:
  "copied old [] = []"
  "copied old ((k, (pos, sz, ts)) # xs) = take sz (drop pos old) @ copied old xs"
  by (simp_all add: copied_def)

lemma index_item_pair [simp]: "index_item (p, r) = (rec_key r, (p, rec_size r, int (rec_ts r)))"
  by (simp add: index_item_def entry_of_def)

lemma map_snd_layout [simp]: "map snd (layout q rs) = rs"
  by (induction rs arbitrary: q) simp_all

lemma layout_mem_rec: "(p, r) \<in> set (layout q rs) \<Longrightarrow> r \<in> set rs"
  by (metis map_snd_layout image_eqI set_map snd_conv)

lemma sum_sizes_layout [simp]:
  "sum_list (map (\<lambda>x. rec_size (snd x)) (layout q rs)) = length (log_bytes rs)"
  by (induction rs arbitrary: q) simp_all

lemma live_size_update:
  "live_size (AList.update k v ks) + (case map_of ks k of None \<Rightarrow> 0 | Some e \<Rightarrow> fst (snd e))
     = live_size ks + fst (snd v)"
  by (induction ks) (auto simp: live_size_def)

lemma live_bytes_foldl:
  "deleted_size (foldl index_step s L) + live_size (keys (foldl index_step s L)) =
     deleted_size s + live_size (keys s) + sum_list (map (\<lambda>x. rec_size (snd x)) L)"
proof (induction L rule: rev_induct)
  case Nil
  then show ?case by simp
next
  case (snoc x L)
  obtain p r where x: "x = (p, r)" by (cases x)
  let ?t = "foldl index_step s L"
  have "live_size (AList.update (rec_key r) (entry_of (p, r)) (keys ?t))
          + (case map_of (keys ?t) (rec_key r) of None \<Rightarrow> 0 | Some e \<Rightarrow> fst (snd e))
        = live_size (keys ?t) + rec_size r"
    using live_size_update [of "rec_key r" "entry_of (p, r)" "keys ?t"]
    by (simp add: entry_of_def)
  then show ?case using snoc by (simp add: x)
qed

lemma live_bytes_replay:
  "deleted_size (replay rs) + live_size (keys (replay rs)) = length (log_bytes rs)"
  using live_bytes_foldl [of "empty_store None" "layout 0 rs"]
  by (simp add: replay_def live_size_def)

lemma consistent_deleted_le: "consistent rs s \<Longrightarrow> deleted_size s \<le> data_size s"
  using live_bytes_replay [of rs] by (simp add: consistent_def)

lemma huge_ge_2: "(2::nat) \<le> 2 ^ 1024 - 2 ^ 970"
proof -
  have "(2::nat) ^ 1024 = 2 ^ 970 * 2 ^ 54" by (simp add: power_add [symmetric])
  moreover have "(2::nat) \<le> 2 ^ 970 * (2 ^ 54 - 1)"
  proof -
    have "(1::nat) \<le> 2 ^ 970" by simp
    moreover have "(2::nat) \<le> 2 ^ 54 - 1" by simp
    ultimately have "1 * (2::nat) \<le> 2 ^ 970 * (2 ^ 54 - 1)" by (rule mult_le_mono)
    then show ?thesis by simp
  qed
  ultimately show ?thesis by (simp add: diff_mult_distrib2)
qed

lemma exceeds_threshold_ok:
  assumes "d \<le> n" "0 < n"
  shows "exceeds_threshold d n = Inr (n * (2 ^ 53 + 1) < d * 2 ^ 54)"
proof -
  have "n * 2 \<le> n * (2 ^ 1024 - 2 ^ 970)"
    using huge_ge_2 by (rule mult_le_mono2)
  then have "\<not> n * (2 ^ 1024 - 2 ^ 970) \<le> d" using assms by linarith
  then show ?thesis by (simp add: exceeds_threshold_def)
qed

lemma exceeds_threshold_small:
  assumes "d \<le> n" "0 < n" "n < 2 ^ 53"
  shows "exceeds_threshold d n = Inr (n < 2 * d)"
proof -
  have "n * (2 ^ 53 + 1) < d * 2 ^ 54 \<longleftrightarrow> n < 2 * d"
  proof
    assume a: "n * (2 ^ 53 + 1) < d * 2 ^ 54"
    show "n < 2 * d"
    proof (rule ccontr)
      assume "\<not> n < 2 * d"
      then have "2 * d \<le> n" by simp
      then have "2 * d * 2 ^ 53 \<le> n * 2 ^ 53" by (rule mult_le_mono1)
      then have "d * 2 ^ 54 \<le> n * 2 ^ 53" by simp
      then show False using a by (simp add: distrib_left)
    qed
  next
    assume "n < 2 * d"
    then have "n + 1 \<le> 2 * d" by simp
    then have "(n + 1) * 2 ^ 53 \<le> 2 * d * 2 ^ 53" by (rule mult_le_mono1)
    then have "n * 2 ^ 53 + 2 ^ 53 \<le> d * 2 ^ 54" by (simp add: distrib_right)
    then show "n * (2 ^ 53 + 1) < d * 2 ^ 54" using assms(3) by (simp add: distrib_left)
  qed
  then show ?thesis using exceeds_threshold_ok [OF assms(1,2)] by simp
qed

lemma update_fresh_mid:
  "k \<notin> fst ` set pre \<Longrightarrow> AList.update k v (pre @ (k, e) # items) = pre @ (k, v) # items"
  by (induction pre) auto

lemma update_fresh_end:
  "k \<notin> fst ` set ks \<Longrightarrow> AList.update k v ks = ks @ [(k, v)]"
  by (induction ks) auto

lemma compact_loop_char:
  "distinct (map fst (pre @ items)) \<Longrightarrow>
   compact_loop old items (new, pre @ items) =
     (new @ copied old items, pre @ reloc old (length new) items)"
proof (induction items arbitrary: new pre)
  case Nil
  then show ?case by simp
next
  case (Cons x items)
  obtain k pos sz ts where x: "x = (k, (pos, sz, ts))" by (cases x) auto
  let ?d = "take sz (drop pos old)"
  have fresh: "k \<notin> fst ` set pre" using Cons.prems by (auto simp: x)
  have u: "AList.update k (length new, sz, ts) (pre @ x # items) = (pre @ [(k, (length new, sz, ts))]) @ items"
    unfolding x using fresh by (simp add: update_fresh_mid)
  have d: "distinct (map fst ((pre @ [(k, (length new, sz, ts))]) @ items))"
    using Cons.prems by (simp add: x)
  have "compact_loop old (x # items) (new, pre @ x # items) =
        compact_loop old items (new @ ?d, (pre @ [(k, (length new, sz, ts))]) @ items)"
    unfolding x by (simp add: Let_def u [unfolded x])
  also have "\<dots> = ((new @ ?d) @ copied old items,
                   (pre @ [(k, (length new, sz, ts))]) @ reloc old (length (new @ ?d)) items)"
    using d by (rule Cons.IH)
  finally show ?case by (simp add: x)
qed

lemma index_items:
  assumes "\<forall>(k, e) \<in> set K. map_option entry_of (latest L k) = Some e"
  shows "K = map index_item (List.map_filter (latest L) (map fst K))"
  using assms
proof (induction K)
  case Nil
  then show ?case by simp
next
  case (Cons a K)
  obtain k e where a: "a = (k, e)" by (cases a)
  from Cons.prems obtain x where x: "latest L k = Some x" "e = entry_of x"
    by (auto simp: a)
  have "rec_key (snd x) = k" using latest_mem [of L k "fst x" "snd x"] x by simp
  then show ?case using Cons x by (simp add: a index_item_def)
qed

lemma map_filter_mem: "x \<in> set (List.map_filter f xs) \<Longrightarrow> \<exists>k \<in> set xs. f k = Some x"
  by (induction xs) (auto split: option.splits)

lemma map_filter_memI: "k \<in> set xs \<Longrightarrow> f k = Some x \<Longrightarrow> x \<in> set (List.map_filter f xs)"
  by (induction xs) (auto split: option.splits)

lemma copied_records:
  assumes "\<forall>(p, r) \<in> set X. take (rec_size r) (drop p old) = rec_bytes r"
  shows "copied old (map index_item X) = log_bytes (map snd X) \<and>
         reloc old q (map index_item X) = map index_item (layout q (map snd X))"
  using assms
proof (induction X arbitrary: q)
  case Nil
  then show ?case by simp
next
  case (Cons x X)
  obtain p r where x: "x = (p, r)" by (cases x)
  have b: "take (rec_size r) (drop p old) = rec_bytes r" using Cons.prems by (simp add: x)
  have ih: "copied old (map index_item X) = log_bytes (map snd X)"
    "\<And>q. reloc old q (map index_item X) = map index_item (layout q (map snd X))"
    using Cons by simp_all
  show ?case using ih b
    by (simp add: x)
qed

lemma foldl_fresh_keys:
  assumes "distinct (map rec_key rs)" "rec_key ` set rs \<inter> fst ` set (keys s) = {}"
  shows "keys (foldl index_step s (layout q rs)) = keys s @ map index_item (layout q rs) \<and>
         deleted_size (foldl index_step s (layout q rs)) = deleted_size s"
  using assms
proof (induction rs arbitrary: s q)
  case Nil
  then show ?case by simp
next
  case (Cons r rs)
  let ?s = "index_step s (q, r)"
  have fresh: "rec_key r \<notin> fst ` set (keys s)" using Cons.prems by auto
  have k: "keys ?s = keys s @ [index_item (q, r)]"
    using fresh by (simp add: update_fresh_end entry_of_def)
  have m: "map_of (keys s) (rec_key r) = None"
    using fresh by (simp add: map_of_eq_None_iff)
  have d: "deleted_size ?s = deleted_size s" using m by simp
  have f: "fst ` set (keys ?s) = insert (rec_key r) (fst ` set (keys s))"
    unfolding k by simp
  have "distinct (map rec_key rs)" "rec_key ` set rs \<inter> fst ` set (keys ?s) = {}"
    unfolding f using Cons.prems by auto
  from Cons.IH [OF this] show ?case using fresh m by (simp add: update_fresh_end entry_of_def)
qed

lemma replay_distinct:
  assumes "distinct (map rec_key rs)"
  shows "keys (replay rs) = map index_item (layout 0 rs)" "deleted_size (replay rs) = 0"
  using foldl_fresh_keys [of rs "empty_store None" 0] assms by (simp_all add: replay_def)

lemma last_rec_distinct:
  assumes "distinct (map rec_key rs)"
  shows "last_rec rs k = Some r \<longleftrightarrow> r \<in> set rs \<and> rec_key r = k"
proof -
  let ?al = "rev (map (\<lambda>(p, r). (rec_key r, (p, r))) (layout 0 rs))"
  have "map (\<lambda>x. rec_key (snd x)) (layout 0 rs) = map rec_key (map snd (layout 0 rs))"
    by (simp only: map_map comp_def)
  then have b: "map (\<lambda>x. rec_key (snd x)) (layout 0 rs) = map rec_key rs"
    by simp
  have a: "map fst ?al = rev (map (\<lambda>x. rec_key (snd x)) (layout 0 rs))"
    by (simp add: rev_map case_prod_beta comp_def)
  have dist: "distinct (map fst ?al)"
    unfolding a b using assms by simp
  have "last_rec rs k = Some r \<longleftrightarrow> (\<exists>p. map_of ?al k = Some (p, r))"
    by (auto simp: last_rec_def latest_def)
  also have "\<dots> \<longleftrightarrow> (\<exists>p. (k, (p, r)) \<in> set ?al)"
    using dist by simp
  also have "\<dots> \<longleftrightarrow> (\<exists>p. (p, r) \<in> set (layout 0 rs)) \<and> rec_key r = k"
    by auto
  also have "(\<exists>p. (p, r) \<in> set (layout 0 rs)) \<longleftrightarrow> r \<in> snd ` set (layout 0 rs)"
    by force
  also have "snd ` set (layout 0 rs) = set rs"
    by (metis map_snd_layout set_map)
  finally show ?thesis .
qed

subsection \<open>Compaction of a consistent store\<close>

lemma option_eqI: "(\<And>r. a = Some r \<longleftrightarrow> b = Some r) \<Longrightarrow> a = b"
  by (cases a; cases b) auto

lemma consistent_file:
  assumes "consistent rs s" "rs \<noteq> []"
  shows "data_file s = Some (log_bytes rs)"
proof -
  obtain r rs' where "rs = r # rs'" using assms(2) by (cases rs) auto
  then have "length (log_bytes rs) > 0" by (simp add: rec_size_def)
  then have "log_of s \<noteq> []" using assms(1) by (auto simp: consistent_def)
  then show ?thesis using assms(1) by (auto simp: consistent_def log_of_def split: option.splits)
qed

lemma survivors_facts:
  fixes rs
  defines "L \<equiv> layout 0 rs" and "K \<equiv> keys (replay rs)"
  defines "X \<equiv> List.map_filter (latest L) (map fst K)"
  shows "K = map index_item X"
    and "\<forall>(p, r) \<in> set X. (p, r) \<in> set L"
    and "distinct (map rec_key (survivors rs))"
    and "last_rec (survivors rs) k = last_rec rs k"
proof -
  have dK: "distinct (map fst K)" by (simp add: K_def)
  have "map_option entry_of (latest L k) = Some e" if "(k, e) \<in> set K" for k e
  proof -
    have "map_of K k = Some e" using that dK by simp
    then show ?thesis
      by (simp add: K_def L_def map_of_keys_replay)
  qed
  then have ent: "\<forall>(k, e) \<in> set K. map_option entry_of (latest L k) = Some e"
    by blast
  then show kx: "K = map index_item X" unfolding X_def by (rule index_items)
  show xl: "\<forall>(p, r) \<in> set X. (p, r) \<in> set L"
    unfolding X_def by (auto dest!: map_filter_mem dest: latest_mem)
  have sv: "survivors rs = map snd X"
    by (simp add: survivors_def X_def L_def K_def)
  have "map fst K = map rec_key (map snd X)"
    by (subst kx) (simp add: index_item_def comp_def)
  then show ds: "distinct (map rec_key (survivors rs))"
    using dK by (simp add: sv)
  show "last_rec (survivors rs) k = last_rec rs k"
  proof (rule option_eqI)
    fix r
    have "last_rec (survivors rs) k = Some r \<longleftrightarrow> r \<in> set (survivors rs) \<and> rec_key r = k"
      using ds by (rule last_rec_distinct)
    also have "\<dots> \<longleftrightarrow> (\<exists>p. (p, r) \<in> set X) \<and> rec_key r = k"
      by (force simp: sv)
    also have "\<dots> \<longleftrightarrow> (\<exists>p. latest L k = Some (p, r))"
    proof
      assume a: "(\<exists>p. (p, r) \<in> set X) \<and> rec_key r = k"
      then obtain p where "(p, r) \<in> set X" by auto
      then obtain k' where "latest L k' = Some (p, r)"
        unfolding X_def by (auto dest!: map_filter_mem)
      moreover from this have "rec_key r = k'" by (auto dest: latest_mem)
      ultimately show "\<exists>p. latest L k = Some (p, r)" using a by auto
    next
      assume "\<exists>p. latest L k = Some (p, r)"
      then obtain p where l: "latest L k = Some (p, r)" by auto
      then have "map_of K k = Some (entry_of (p, r))"
        by (simp add: K_def L_def map_of_keys_replay)
      then have "k \<in> set (map fst K)"
        by (auto dest!: map_of_SomeD intro: rev_image_eqI)
      then have "(p, r) \<in> set X"
        unfolding X_def using l by (rule map_filter_memI)
      moreover have "rec_key r = k" using l by (auto dest: latest_mem)
      ultimately show "(\<exists>p. (p, r) \<in> set X) \<and> rec_key r = k" by auto
    qed
    also have "\<dots> \<longleftrightarrow> last_rec rs k = Some r"
      by (auto simp: last_rec_def L_def)
    finally show "last_rec (survivors rs) k = Some r \<longleftrightarrow> last_rec rs k = Some r" .
  qed
qed

lemma compact_consistent:
  assumes "consistent rs s" "data_file s \<noteq> None"
  shows "\<exists>s'. compact s = Inr s' \<and> consistent (survivors rs) s' \<and> deleted_size s' = 0
              \<and> data_file s' \<noteq> None"
proof -
  let ?L = "layout 0 rs" and ?K = "keys (replay rs)"
  let ?X = "List.map_filter (latest ?L) (map fst ?K)"
  let ?old = "log_bytes rs"
  have fl: "data_file s = Some ?old"
    using assms by (auto simp: consistent_def log_of_def)
  have ks: "keys s = ?K" using assms by (simp add: consistent_def)
  note f = survivors_facts [of rs]
  have sv: "survivors rs = map snd ?X" by (simp add: survivors_def)
  have bytes: "\<forall>(p, r) \<in> set ?X. take (rec_size r) (drop p ?old) = rec_bytes r"
    using f(2) layout_bytes [of _ _ 0 rs] by fastforce
  have cr: "copied ?old (map index_item ?X) = log_bytes (survivors rs)"
    "reloc ?old 0 (map index_item ?X) = map index_item (layout 0 (survivors rs))"
    using copied_records [OF bytes] by (simp_all add: sv)
  have "compact_loop ?old ?K ([], [] @ ?K) = ([] @ copied ?old ?K, [] @ reloc ?old (length ([]::byte list)) ?K)"
    by (rule compact_loop_char) simp
  then have loop: "compact_loop ?old ?K ([], ?K) =
       (log_bytes (survivors rs), map index_item (layout 0 (survivors rs)))"
    using cr by (subst (asm) (2 4) f(1)) (simp add: f(1) [symmetric])
  let ?s' = "\<lparr>data_file = Some (log_bytes (survivors rs)), keys = map index_item (layout 0 (survivors rs)),
              data_size = length (log_bytes (survivors rs)), deleted_size = 0\<rparr>"
  have c: "compact s = Inr ?s'"
    by (simp add: compact_def fl ks loop)
  have "set (survivors rs) \<subseteq> set rs"
    using f(2) by (auto simp: sv dest: layout_mem_rec)
  then have v: "list_all valid_rec (survivors rs)"
    using assms(1) by (auto simp: consistent_def list_all_iff)
  have "consistent (survivors rs) ?s'"
    using v replay_distinct [OF f(3)] by (simp add: consistent_def log_of_def)
  then show ?thesis using c by simp
qed

subsection \<open>Engine calls keep the store consistent with the model\<close>

lemma fresh_empty: "fresh = empty_store None"
  by (simp add: fresh_def empty_store_def)

lemma last_rec_Nil [simp]: "last_rec [] = Map.empty"
  by (rule ext) (simp add: last_rec_def)

lemma last_rec_snoc [simp]: "last_rec (rs @ [r]) = (last_rec rs)(rec_key r \<mapsto> r)"
  by (rule ext) (simp add: last_rec_def layout_append)

lemma abstracts_fresh: "abstracts Map.empty fresh"
  unfolding abstracts_def fresh_empty
  by (auto intro!: exI [of _ "[]"] simp: consistent_fresh recs_of_def)

lemma recs_of_upd:
  "new_record now key value = Some r \<Longrightarrow> recs_of (m(key \<mapsto> (now, value))) = (recs_of m)(key \<mapsto> r)"
  by (rule ext) (simp add: recs_of_def)

lemma maybe_compact_consistent:
  assumes "consistent rs s"
  shows "\<exists>s' rs'. maybe_compact s = Inr s' \<and> consistent rs' s' \<and> last_rec rs' = last_rec rs"
proof (cases "data_size s > 0")
  case False
  then show ?thesis using assms
    by (auto simp: maybe_compact_def compaction_due_def)
next
  case True
  have le: "deleted_size s \<le> data_size s" using assms by (rule consistent_deleted_le)
  have due: "compaction_due s = Inr (data_size s * (2 ^ 53 + 1) < deleted_size s * 2 ^ 54)"
    using True exceeds_threshold_ok [OF le True] by (simp add: compaction_due_def)
  show ?thesis
  proof (cases "data_size s * (2 ^ 53 + 1) < deleted_size s * 2 ^ 54")
    case False
    then show ?thesis using assms due by (auto simp: maybe_compact_def)
  next
    case c: True
    have "log_of s \<noteq> []" using True assms by (auto simp: consistent_def)
    then have "data_file s \<noteq> None" by (auto simp: log_of_def split: option.splits)
    from compact_consistent [OF assms this] obtain s' where
      "compact s = Inr s'" "consistent (survivors rs) s'" by auto
    moreover have "last_rec (survivors rs) = last_rec rs"
      by (rule ext) (rule survivors_facts(4))
    ultimately show ?thesis using due c by (auto simp: maybe_compact_def)
  qed
qed

lemma append_entry_consistent:
  assumes "consistent rs s"
  shows "(new_record now key value = None \<longrightarrow> (\<exists>e. append_entry now key value s = (Inl e, s))) \<and>
         (\<forall>r. new_record now key value = Some r \<longrightarrow>
            (\<exists>s'. append_entry now key value s = (Inr True, s') \<and> consistent (rs @ [r]) s'
                 \<and> data_file s' \<noteq> None))"
proof (intro conjI impI allI)
  assume "new_record now key value = None"
  then show "\<exists>e. append_entry now key value s = (Inl e, s)" by (rule append_entry_rejected)
next
  fix r assume r: "new_record now key value = Some r"
  then have "valid_rec r" by (simp add: new_record_valid)
  with assms have "consistent (rs @ [r])
      ((index_step s (length (log_of s), r))\<lparr>data_file := Some (log_of s @ rec_bytes r)\<rparr>)"
    by (rule consistent_append)
  then show "\<exists>s'. append_entry now key value s = (Inr True, s') \<and> consistent (rs @ [r]) s'
       \<and> data_file s' \<noteq> None"
    by (simp add: append_entry_accepted [OF r])
qed

lemma abstracts_append:
  assumes "abstracts m s"
  shows "if accepted now key value
         then \<exists>s'. append_entry now key value s = (Inr True, s') \<and> abstracts (m(key \<mapsto> (now, value))) s'
         else \<exists>e. append_entry now key value s = (Inl e, s)"
proof -
  from assms obtain rs where rs: "consistent rs s" "last_rec rs = recs_of m"
    and acc: "\<forall>key now value. m key = Some (now, value) \<longrightarrow> accepted now key value"
    by (auto simp: abstracts_def)
  note a = append_entry_consistent [OF rs(1), of now key "value"]
  show ?thesis
  proof (cases "new_record now key value")
    case None
    then show ?thesis using a by (simp add: accepted_def)
  next
    case (Some r)
    then obtain s' where s': "append_entry now key value s = (Inr True, s')" "consistent (rs @ [r]) s'"
      using a by auto
    have k: "rec_key r = key" using Some by (simp add: new_record_valid)
    have "last_rec (rs @ [r]) = recs_of (m(key \<mapsto> (now, value)))"
      using rs(2) k by (simp add: recs_of_upd [OF Some])
    then have "abstracts (m(key \<mapsto> (now, value))) s'"
      unfolding abstracts_def using s'(2) acc Some by (auto simp: accepted_def)
    then show ?thesis using s'(1) Some by (simp add: accepted_def)
  qed
qed

lemma abstracts_maybe_compact:
  assumes "abstracts m s"
  shows "\<exists>s'. maybe_compact s = Inr s' \<and> abstracts m s'"
proof -
  from assms obtain rs where rs: "consistent rs s" "last_rec rs = recs_of m"
    by (auto simp: abstracts_def)
  from maybe_compact_consistent [OF rs(1)] obtain s' rs' where
    "maybe_compact s = Inr s'" "consistent rs' s'" "last_rec rs' = last_rec rs" by auto
  then show ?thesis using assms rs(2) unfolding abstracts_def by auto
qed

lemma abstracts_put:
  assumes "abstracts m s"
  shows "abstracts (model_step m (Put now key value)) (snd (put now key value s)) \<and>
         (fst (put now key value s) = Inr True \<longleftrightarrow> accepted now key value)"
proof -
  from abstracts_maybe_compact [OF assms] obtain s1 where
    s1: "maybe_compact s = Inr s1" "abstracts m s1" by auto
  show ?thesis
    using abstracts_append [OF s1(2), of now key "value"] s1
    by (auto simp: put_factored split: if_splits)
qed

subsection \<open>Reading through the index\<close>

lemma record_at_bytes:
  assumes "take (rec_size r) (drop p f) = rec_bytes r"
  shows "take 16 (drop p f) = rec_header r"
    and "take (length (rec_vb r)) (drop (p + 16 + length (rec_kb r)) f) = rec_vb r"
proof -
  let ?d = "drop p f"
  have "take 16 ?d = take 16 (take (rec_size r) ?d)"
    by (simp add: rec_size_def min_def)
  also have "\<dots> = rec_header r"
    unfolding assms by (simp add: rec_bytes_def)
  finally show "take 16 (drop p f) = rec_header r" .
  have "drop (p + 16 + length (rec_kb r)) f = drop (16 + length (rec_kb r)) ?d"
    by (simp add: add.commute add.left_commute)
  then have "take (length (rec_vb r)) (drop (p + 16 + length (rec_kb r)) f)
        = drop (16 + length (rec_kb r)) (take (rec_size r) ?d)"
    by (simp add: drop_take rec_size_def)
  also have "\<dots> = rec_vb r"
    unfolding assms by (simp add: rec_bytes_def)
  finally show "take (length (rec_vb r)) (drop (p + 16 + length (rec_kb r)) f) = rec_vb r" .
qed

lemma index_entry_record:
  assumes "consistent rs s" "map_of (keys s) k = Some e"
  shows "\<exists>p r. e = (p, rec_size r, int (rec_ts r)) \<and> last_rec rs k = Some r \<and> rec_key r = k \<and>
           valid_rec r \<and> (p, r) \<in> set (layout 0 rs) \<and> data_file s = Some (log_bytes rs) \<and>
           take (rec_size r) (drop p (log_bytes rs)) = rec_bytes r"
proof -
  have "map_option entry_of (latest (layout 0 rs) k) = Some e"
    using assms by (simp add: consistent_def map_of_keys_replay)
  then obtain p r where l: "latest (layout 0 rs) k = Some (p, r)" and e: "e = entry_of (p, r)"
    by auto
  have m: "(p, r) \<in> set (layout 0 rs)" "rec_key r = k"
    using latest_mem [OF l] by simp_all
  then have r: "r \<in> set rs" by (auto dest: layout_mem_rec)
  then have "rs \<noteq> []" by auto
  then have f: "data_file s = Some (log_bytes rs)" using assms(1) by (rule consistent_file [rotated])
  have v: "valid_rec r" using r assms(1) by (auto simp: consistent_def list_all_iff)
  have "take (rec_size r) (drop (p - 0) (log_bytes rs)) = rec_bytes r"
    using layout_bytes [OF m(1)] by blast
  then show ?thesis using l e m f v by (simp add: entry_of_def last_rec_def)
qed

lemma index_entry_none:
  assumes "consistent rs s"
  shows "map_of (keys s) k = None \<longleftrightarrow> last_rec rs k = None"
  using assms by (simp add: consistent_def map_of_keys_replay last_rec_def)

lemma read_consistent:
  assumes "consistent rs s"
  shows "read k s = visible (last_rec rs k)"
proof (cases "map_of (keys s) k")
  case None
  then show ?thesis
    using index_entry_none [OF assms, of k] by (simp add: read_def visible_def)
next
  case (Some e)
  from index_entry_record [OF assms Some] obtain p r where
    e: "e = (p, rec_size r, int (rec_ts r))" and l: "last_rec rs k = Some r"
    and v: "valid_rec r" and f: "data_file s = Some (log_bytes rs)"
    and b: "take (rec_size r) (drop p (log_bytes rs)) = rec_bytes r"
    by blast
  show ?thesis
    by (simp add: read_def Some e f record_at_bytes [OF b] unpack_header [OF v] l visible_def
          split: option.splits)
qed

lemma recs_of_None: 
  assumes "\<forall>key now value. m key = Some (now, value) \<longrightarrow> accepted now key value"
  shows "recs_of m k = None \<longleftrightarrow> m k = None"
  using assms by (auto simp: recs_of_def accepted_def split: option.splits)

lemma new_record_value:
  "new_record now key value = Some r \<Longrightarrow> utf8_decode (rec_vb r) = Some value"
  by (auto simp: new_record_def utf8_decode_encode split: option.splits if_splits)

lemma read_abstracts:
  assumes "abstracts m s"
  shows "read k s = Inr (model_read m k)"
proof -
  from assms obtain rs where rs: "consistent rs s" "last_rec rs = recs_of m"
    and acc: "\<forall>key now value. m key = Some (now, value) \<longrightarrow> accepted now key value"
    by (auto simp: abstracts_def)
  show ?thesis
  proof (cases "m k")
    case None
    then show ?thesis
      by (simp add: read_consistent [OF rs(1)] rs(2) recs_of_def visible_def model_read_def)
  next
    case (Some a)
    obtain now v where a: "a = (now, v)" by (cases a)
    then have "accepted now k v" using acc Some by simp
    then obtain r where r: "new_record now k v = Some r" by (auto simp: accepted_def)
    show ?thesis
      using Some a r new_record_value [OF r]
      by (simp add: read_consistent [OF rs(1)] rs(2) recs_of_def visible_def model_read_def)
  qed
qed

lemma abstracts_index:
  assumes "abstracts m s"
  shows "map_of (keys s) k = None \<longleftrightarrow> m k = None"
proof -
  from assms obtain rs where rs: "consistent rs s" "last_rec rs = recs_of m"
    and acc: "\<forall>key now value. m key = Some (now, value) \<longrightarrow> accepted now key value"
    by (auto simp: abstracts_def)
  show ?thesis
    using index_entry_none [OF rs(1), of k] recs_of_None [OF acc, of k] rs(2) by simp
qed

lemma abstracts_delete:
  assumes "abstracts m s"
  shows "abstracts (model_step m (Delete now key)) (snd (delete now key s)) \<and>
         (fst (delete now key s) = Inr True \<longleftrightarrow> m key \<noteq> None \<and> accepted now key DELETED)"
proof (cases "m key = None")
  case True
  then have "map_of (keys s) key = None" using abstracts_index [OF assms] by simp
  then show ?thesis using True assms by (simp add: delete_factored)
next
  case False
  then have p: "map_of (keys s) key \<noteq> None" using abstracts_index [OF assms] by simp
  note a = abstracts_append [OF assms, of now key DELETED]
  show ?thesis
  proof (cases "accepted now key DELETED")
    case n: False
    then show ?thesis using a p assms False by (auto simp: delete_factored)
  next
    case y: True
    then obtain s1 where s1: "append_entry now key DELETED s = (Inr True, s1)"
      "abstracts (m(key \<mapsto> (now, DELETED))) s1"
      using a by auto
    from abstracts_maybe_compact [OF s1(2)] obtain s2 where
      "maybe_compact s1 = Inr s2" "abstracts (m(key \<mapsto> (now, DELETED))) s2" by auto
    then show ?thesis using p s1 y False by (simp add: delete_factored)
  qed
qed

lemma abstracts_batch_loop:
  assumes "abstracts m s"
  shows "abstracts (model_batch items m) (snd (batch_loop items s))"
  using assms
proof (induction items arbitrary: m s)
  case Nil
  then show ?case by simp
next
  case (Cons x items)
  obtain now key v where x: "x = (now, key, v)" by (cases x)
  note a = abstracts_append [OF Cons.prems, of now key v]
  show ?case
  proof (cases "accepted now key v")
    case False
    then show ?thesis using a Cons.prems by (auto simp: x batch_loop_factored simp del: batch_loop.simps)
  next
    case True
    then obtain s' where s': "append_entry now key v s = (Inr True, s')"
      "abstracts (m(key \<mapsto> (now, v))) s'"
      using a by auto
    have "batch_loop (x # items) s = batch_loop items s'"
      using s'(1) by (simp add: x batch_loop_factored del: batch_loop.simps)
    moreover have "model_batch (x # items) m = model_batch items (m(key \<mapsto> (now, v)))"
      using True by (simp add: x)
    ultimately show ?thesis using Cons.IH [OF s'(2)] by (simp only:)
  qed
qed

lemma consistent_touch:
  "consistent rs s \<Longrightarrow> consistent rs (s\<lparr>data_file := Some (log_of s)\<rparr>)"
  by (simp add: consistent_def log_of_def)

lemma abstracts_batch_put:
  assumes "abstracts m s"
  shows "abstracts (model_step m (BatchPut items)) (snd (batch_put items s))"
proof -
  from abstracts_maybe_compact [OF assms] obtain s1 where
    s1: "maybe_compact s = Inr s1" "abstracts m s1" by auto
  have "abstracts m (s1\<lparr>data_file := Some (log_of s1)\<rparr>)"
    using s1(2) unfolding abstracts_def by (auto intro: consistent_touch)
  then show ?thesis
    using s1(1) by (simp add: batch_put_factored abstracts_batch_loop)
qed

lemma consistent_unique:
  assumes "consistent rs s" "consistent rs s'" "data_file s' = data_file s"
  shows "s' = s"
  using assms by (simp add: consistent_def)

lemma reopen_consistent:
  assumes "consistent rs s"
  shows "load_from_disk s = Inr s"
proof (cases "data_file s")
  case None
  then have "log_bytes rs = []" using assms by (simp add: consistent_def log_of_def)
  then have "rs = []" by (cases rs) (auto simp: rec_bytes_def)
  then have "s = empty_store None"
    using assms None by (simp add: consistent_def empty_store_def)
  then show ?thesis by (simp add: load_from_disk_def Let_def empty_store_def)
next
  case (Some f)
  then have f: "data_file s = Some (log_bytes rs)" using assms by (simp add: consistent_def log_of_def)
  have "list_all valid_rec rs" using assms by (simp add: consistent_def)
  from load_from_disk_records [OF this f] obtain s' where
    "load_from_disk s = Inr s'" "data_file s' = data_file s" "consistent rs s'" by auto
  then show ?thesis using consistent_unique [OF assms] by auto
qed

lemma abstracts_exec:
  assumes "abstracts m s"
  shows "\<exists>s'. exec op s = Inr s' \<and> abstracts (model_step m op) s'"
proof (cases op)
  case (Put now key v)
  then show ?thesis using abstracts_put [OF assms] by simp
next
  case (Delete now key)
  then show ?thesis using abstracts_delete [OF assms] by simp
next
  case (BatchPut items)
  then show ?thesis using abstracts_batch_put [OF assms] by simp
next
  case Reopen
  from assms obtain rs where "consistent rs s" by (auto simp: abstracts_def)
  then have "load_from_disk s = Inr s" by (rule reopen_consistent)
  then show ?thesis using assms Reopen by simp
qed

lemma abstracts_run:
  assumes "abstracts m s"
  shows "\<exists>s'. run ops s = Inr s' \<and> abstracts (foldl model_step m ops) s'"
  using assms
proof (induction ops arbitrary: m s)
  case Nil
  then show ?case by simp
next
  case (Cons op ops)
  from abstracts_exec [OF Cons.prems, of op] obtain s1 where
    s1: "exec op s = Inr s1" "abstracts (model_step m op) s1" by auto
  from Cons.IH [OF s1(2)] show ?case using s1(1) by simp
qed

lemma reachable_abstracts:
  "\<exists>s. run ops fresh = Inr s \<and> abstracts (model ops) s"
  unfolding model_def using abstracts_fresh by (rule abstracts_run)

subsection \<open>The index and the model, key by key\<close>

lemma init_load: "init (data_file s) = load_from_disk s"
  by (simp add: init_def load_from_disk_def Let_def reset_store empty_store_def)

lemma abstracts_entry:
  assumes "abstracts m s" "m key = Some (now, value)"
  shows "\<exists>pos sz. map_of (keys s) key = Some (pos, sz, now) \<and>
           Some (take sz (drop pos (log_of s))) = encode_record now key value"
proof -
  from assms obtain rs where rs: "consistent rs s" "last_rec rs = recs_of m"
    and acc: "accepted now key value"
    by (auto simp: abstracts_def)
  from acc obtain r where r: "new_record now key value = Some r" by (auto simp: accepted_def)
  have l: "last_rec rs key = Some r" using rs(2) assms(2) r by (simp add: recs_of_def)
  then obtain e where e: "map_of (keys s) key = Some e"
    using index_entry_none [OF rs(1), of key] by auto
  from index_entry_record [OF rs(1) e] l obtain p where
    p: "e = (p, rec_size r, int (rec_ts r))" "data_file s = Some (log_bytes rs)"
       "take (rec_size r) (drop p (log_bytes rs)) = rec_bytes r"
    by auto
  have "int (rec_ts r) = now"
    using r by (auto simp: new_record_def split: option.splits if_splits)
  then show ?thesis using e p r by (simp add: encode_record_def log_of_def)
qed

lemma abstracts_entry_none:
  assumes "abstracts m s" "m key = None"
  shows "map_of (keys s) key = None"
  using abstracts_index [OF assms(1), of key] assms(2) by simp

lemma model_batch_other:
  "key \<notin> set (map (\<lambda>(now, key, value). key) items) \<Longrightarrow> model_batch items m key = m key"
  by (induction items arbitrary: m) auto

lemma model_step_other:
  "key \<notin> set (written_keys op) \<Longrightarrow> model_step m op key = m key"
  by (cases op) (auto simp: model_batch_other)

lemma model_run_other:
  "key \<notin> set (concat (map written_keys ops)) \<Longrightarrow> foldl model_step m ops key = m key"
  by (induction ops arbitrary: m) (auto simp: model_step_other)

lemma model_step_tombstone:
  assumes "key \<notin> set (put_keys op)" "\<exists>t. m key = Some (t, DELETED)"
  shows "\<exists>t. model_step m op key = Some (t, DELETED)"
  using assms by (cases op) (auto simp: model_batch_other)

lemma model_run_tombstone:
  assumes "key \<notin> set (concat (map put_keys ops))" "\<exists>t. m key = Some (t, DELETED)"
  shows "\<exists>t. foldl model_step m ops key = Some (t, DELETED)"
  using assms
proof (induction ops arbitrary: m)
  case Nil
  then show ?case by simp
next
  case (Cons op ops)
  have "\<exists>t. model_step m op key = Some (t, DELETED)"
    using Cons.prems by (intro model_step_tombstone) auto
  then show ?case using Cons by simp
qed

subsection \<open>The garbage counter\<close>

lemma rec_size_pos: "0 < rec_size r"
  by (simp add: rec_size_def)

lemma layout_offsets_lower: "(p, r) \<in> set (layout q rs) \<Longrightarrow> q \<le> p"
  using layout_bytes by blast

lemma distinct_layout_offsets: "distinct (map fst (layout q rs))"
proof (induction rs arbitrary: q)
  case Nil
  then show ?case by simp
next
  case (Cons r rs)
  have "q \<notin> fst ` set (layout (q + rec_size r) rs)"
  proof
    assume "q \<in> fst ` set (layout (q + rec_size r) rs)"
    then obtain r' where "(q, r') \<in> set (layout (q + rec_size r) rs)" by force
    then have "q + rec_size r \<le> q" by (rule layout_offsets_lower)
    then show False using rec_size_pos [of r] by simp
  qed
  then show ?case using Cons by simp
qed

lemma distinct_layout: "distinct (layout q rs)"
  using distinct_layout_offsets [of q rs] by (rule distinct_map [THEN iffD1, THEN conjunct1])

lemma layout_offset_unique:
  "(p, r) \<in> set (layout q rs) \<Longrightarrow> (p, r') \<in> set (layout q rs) \<Longrightarrow> r = r'"
  using distinct_layout_offsets [of q rs] by (meson eq_key_imp_eq_value)

lemma sum_filter_disj:
  fixes f :: "'a \<Rightarrow> nat"
  shows "sum_list (map f (filter (\<lambda>x. P x \<or> Q x) xs)) =
     sum_list (map f (filter Q xs)) + sum_list (map f (filter (\<lambda>x. P x \<and> \<not> Q x) xs))"
  by (induction xs) auto

lemma sum_filter_eq:
  fixes f :: "'a \<Rightarrow> nat"
  shows "distinct xs \<Longrightarrow>
     sum_list (map f (filter (\<lambda>x. y = Some x) xs)) =
       (case y of None \<Rightarrow> 0 | Some x \<Rightarrow> if x \<in> set xs then f x else 0)"
proof (induction xs)
  case Nil
  then show ?case by (simp split: option.splits)
next
  case (Cons a xs)
  then show ?case by (cases y) auto
qed

lemma stale_bytes_snoc:
  assumes "distinct (L @ [(q, r)])"
  shows "stale_bytes (L @ [(q, r)]) =
           stale_bytes L + (case latest L (rec_key r) of None \<Rightarrow> 0 | Some x \<Rightarrow> rec_size (snd x))"
proof -
  let ?f = "\<lambda>x. rec_size (snd x)"
  have new: "(q, r) \<notin> set L" and d: "distinct L" using assms by auto
  have p: "(latest (L @ [(q, r)]) (rec_key (snd x)) \<noteq> Some x) =
      (latest L (rec_key r) = Some x \<and> \<not> latest L (rec_key (snd x)) \<noteq> Some x
         \<or> latest L (rec_key (snd x)) \<noteq> Some x)" if x: "x \<in> set L" for x
  proof (cases "rec_key (snd x) = rec_key r")
    case True
    have "x \<noteq> (q, r)" using x new by auto
    then show ?thesis using True by auto
  next
    case False
    have "latest L (rec_key r) \<noteq> Some x"
      using False latest_mem [of L "rec_key r" "fst x" "snd x"] by auto
    then show ?thesis using False by simp
  qed
  have "filter (\<lambda>x. latest (L @ [(q, r)]) (rec_key (snd x)) \<noteq> Some x) L =
        filter (\<lambda>x. latest L (rec_key r) = Some x \<and> \<not> latest L (rec_key (snd x)) \<noteq> Some x
                      \<or> latest L (rec_key (snd x)) \<noteq> Some x) L"
    by (rule filter_cong [OF refl]) (erule p)
  then have "stale_bytes (L @ [(q, r)]) =
      sum_list (map ?f (filter (\<lambda>x. latest L (rec_key r) = Some x \<and> \<not> latest L (rec_key (snd x)) \<noteq> Some x
                      \<or> latest L (rec_key (snd x)) \<noteq> Some x) L))"
    by (simp add: stale_bytes_def)
  also have "\<dots> = stale_bytes L +
      sum_list (map ?f (filter (\<lambda>x. (latest L (rec_key r) = Some x \<and> \<not> latest L (rec_key (snd x)) \<noteq> Some x)
                                     \<and> \<not> latest L (rec_key (snd x)) \<noteq> Some x) L))"
    unfolding stale_bytes_def by (rule sum_filter_disj)
  also have "filter (\<lambda>x. (latest L (rec_key r) = Some x \<and> \<not> latest L (rec_key (snd x)) \<noteq> Some x)
                                     \<and> \<not> latest L (rec_key (snd x)) \<noteq> Some x) L
           = filter (\<lambda>x. latest L (rec_key r) = Some x) L"
  proof (rule filter_cong [OF refl])
    fix x assume "x \<in> set L"
    have "rec_key (snd x) = rec_key r" if "latest L (rec_key r) = Some x"
      using that latest_mem [of L "rec_key r" "fst x" "snd x"] by simp
    then show "((latest L (rec_key r) = Some x \<and> \<not> latest L (rec_key (snd x)) \<noteq> Some x)
                  \<and> \<not> latest L (rec_key (snd x)) \<noteq> Some x) = (latest L (rec_key r) = Some x)"
      by auto
  qed
  also have "sum_list (map ?f (filter (\<lambda>x. latest L (rec_key r) = Some x) L)) =
      (case latest L (rec_key r) of None \<Rightarrow> 0 | Some x \<Rightarrow> rec_size (snd x))"
    using sum_filter_eq [OF d, of ?f "latest L (rec_key r)"]
    by (auto split: option.splits dest: latest_mem)
  finally show ?thesis .
qed

lemma deleted_size_replay: "deleted_size (replay rs) = stale_bytes (layout 0 rs)"
proof (induction rs rule: rev_induct)
  case Nil
  then show ?case by (simp add: stale_bytes_def)
next
  case (snoc r rs)
  let ?q = "length (log_bytes rs)"
  have l: "layout 0 (rs @ [r]) = layout 0 rs @ [(?q, r)]" by (simp add: layout_append)
  have "distinct (layout 0 rs @ [(?q, r)])" using distinct_layout [of 0 "rs @ [r]"] by (simp add: l)
  from stale_bytes_snoc [OF this]
  have "stale_bytes (layout 0 (rs @ [r])) =
          stale_bytes (layout 0 rs) +
          (case latest (layout 0 rs) (rec_key r) of None \<Rightarrow> 0 | Some x \<Rightarrow> rec_size (snd x))"
    by (simp add: l)
  moreover have "(case map_of (keys (replay rs)) (rec_key r) of None \<Rightarrow> 0 | Some e \<Rightarrow> fst (snd e)) =
        (case latest (layout 0 rs) (rec_key r) of None \<Rightarrow> 0 | Some x \<Rightarrow> rec_size (snd x))"
    by (auto simp: map_of_keys_replay entry_of_def split: option.splits)
  ultimately show ?case using snoc by (simp add: replay_snoc)
qed

lemma index_offsets_replay:
  assumes "(p, r) \<in> set (layout 0 rs)"
  shows "p \<in> set (map (\<lambda>(key, (pos, sz, timestamp)). pos) (keys (replay rs))) \<longleftrightarrow>
         latest (layout 0 rs) (rec_key r) = Some (p, r)"
proof
  assume "p \<in> set (map (\<lambda>(key, (pos, sz, timestamp)). pos) (keys (replay rs)))"
  then obtain k sz t where "(k, (p, sz, t)) \<in> set (keys (replay rs))" by auto
  then have "map_of (keys (replay rs)) k = Some (p, sz, t)" by simp
  then obtain x where x: "latest (layout 0 rs) k = Some x" "entry_of x = (p, sz, t)"
    by (auto simp: map_of_keys_replay)
  then obtain r' where r': "x = (p, r')" by (cases x) (simp add: entry_of_def)
  then have m: "(p, r') \<in> set (layout 0 rs)" "rec_key r' = k" using latest_mem x(1) by auto
  have "r' = r" using m(1) assms by (rule layout_offset_unique)
  then have "r' = r" "rec_key r = k" using m(2) by simp_all
  then show "latest (layout 0 rs) (rec_key r) = Some (p, r)" using x(1) r' by simp
next
  assume "latest (layout 0 rs) (rec_key r) = Some (p, r)"
  then have "map_of (keys (replay rs)) (rec_key r) = Some (entry_of (p, r))"
    by (simp add: map_of_keys_replay)
  then have "(rec_key r, entry_of (p, r)) \<in> set (keys (replay rs))" by (rule map_of_SomeD)
  then show "p \<in> set (map (\<lambda>(key, (pos, sz, timestamp)). pos) (keys (replay rs)))"
    by (force simp: entry_of_def)
qed

lemma log_records_consistent:
  assumes "consistent rs s"
  shows "log_records s = layout 0 rs"
proof -
  have "scan_log 0 (concat (map rec_bytes rs) @ []) =
        layout 0 rs @ scan_log (0 + length (concat (map rec_bytes rs))) []"
    using assms unfolding consistent_def by (intro scan_log_records) simp
  then show ?thesis using assms by (simp add: log_records_def consistent_def log_of_def log_bytes_def)
qed

lemma garbage_bytes_consistent:
  assumes "consistent rs s"
  shows "deleted_size s = garbage_bytes s"
proof -
  let ?L = "layout 0 rs"
  have "filter (\<lambda>(pos, r). pos \<notin> set (index_offsets s)) ?L =
        filter (\<lambda>x. latest ?L (rec_key (snd x)) \<noteq> Some x) ?L"
  proof (rule filter_cong [OF refl])
    fix x assume x: "x \<in> set ?L"
    obtain p r where pr: "x = (p, r)" by (cases x)
    have k: "index_offsets s = map (\<lambda>(key, (pos, sz, timestamp)). pos) (keys (replay rs))"
      using assms by (simp add: index_offsets_def consistent_def)
    have "(p \<in> set (index_offsets s)) = (latest ?L (rec_key r) = Some (p, r))"
      unfolding k using x [unfolded pr] by (rule index_offsets_replay)
    then show "(case x of (pos, r) \<Rightarrow> pos \<notin> set (index_offsets s)) = (latest ?L (rec_key (snd x)) \<noteq> Some x)"
      by (simp add: pr)
  qed
  then have "garbage_bytes s = stale_bytes ?L"
    by (simp add: garbage_bytes_def stale_bytes_def log_records_consistent [OF assms] case_prod_unfold)
  then show ?thesis using assms by (simp add: consistent_def deleted_size_replay)
qed

subsection \<open>What a decoded record says about the bytes, and the invariants\<close>

lemma be_nat_bound: "be_nat bs < 256 ^ length bs"
proof (induction bs rule: rev_induct)
  case Nil
  then show ?case by (simp add: be_nat_def)
next
  case (snoc b bs)
  have "unat b < 256" using unsigned_less [of b, where ?'a = nat] by simp
  then have "be_nat bs * 256 + unat b < (be_nat bs + 1) * 256" by simp
  also have "\<dots> \<le> 256 ^ length bs * 256"
    using snoc by (intro mult_le_mono1) simp
  finally show ?case by (simp add: be_nat_snoc)
qed

lemma be_bytes_be_nat: "be_bytes (length bs) (be_nat bs) = bs"
proof (induction bs rule: rev_induct)
  case Nil
  then show ?case by simp
next
  case (snoc b bs)
  have b: "unat b < 256" using unsigned_less [of b, where ?'a = nat] by simp
  then have "(be_nat bs * 256 + unat b) div 256 = be_nat bs" "(be_nat bs * 256 + unat b) mod 256 = unat b"
    by simp_all
  then show ?case using snoc by (simp add: be_nat_snoc)
qed

lemma unpack_sound:
  assumes "struct_unpack h = Inr (ts, ks, vs)"
  shows "h = be_bytes 8 ts @ be_bytes 4 ks @ be_bytes 4 vs \<and> ts < 2 ^ 64 \<and> ks < 2 ^ 32 \<and> vs < 2 ^ 32"
proof -
  have l: "length h = 16" and ts: "ts = be_nat (take 8 h)" and ks: "ks = be_nat (take 4 (drop 8 h))"
    and vs: "vs = be_nat (drop 12 h)"
    using assms by (auto simp: struct_unpack_def split: if_splits)
  have "be_bytes (length (take 8 h)) (be_nat (take 8 h)) = take 8 h" by (rule be_bytes_be_nat)
  then have a: "be_bytes 8 ts = take 8 h" using l ts by simp
  have "be_bytes (length (take 4 (drop 8 h))) (be_nat (take 4 (drop 8 h))) = take 4 (drop 8 h)"
    by (rule be_bytes_be_nat)
  then have b: "be_bytes 4 ks = take 4 (drop 8 h)" using l ks by simp
  have "be_bytes (length (drop 12 h)) (be_nat (drop 12 h)) = drop 12 h" by (rule be_bytes_be_nat)
  then have c: "be_bytes 4 vs = drop 12 h" using l vs by simp
  have "take 4 (drop 8 h) @ drop 4 (drop 8 h) = drop 8 h" by (rule append_take_drop_id)
  moreover have "drop 4 (drop 8 h) = drop 12 h" by simp
  ultimately have "take 8 h @ take 4 (drop 8 h) @ drop 12 h = take 8 h @ drop 8 h" by simp
  then have h: "h = be_bytes 8 ts @ be_bytes 4 ks @ be_bytes 4 vs" by (simp add: a b c)
  have "ts < 256 ^ length (take 8 h)" unfolding ts by (rule be_nat_bound)
  moreover have "ks < 256 ^ length (take 4 (drop 8 h))" unfolding ks by (rule be_nat_bound)
  moreover have "vs < 256 ^ length (drop 12 h)" unfolding vs by (rule be_nat_bound)
  ultimately show ?thesis using h l by simp
qed

lemma scan_log_sound:
  "(p, r) \<in> set (scan_log q rest) \<Longrightarrow>
     q \<le> p \<and> valid_rec r \<and> take (rec_size r) (drop (p - q) rest) = rec_bytes r"
proof (induction q rest rule: scan_log.induct)
  case (1 pos rest)
  from "1.prems" obtain ts ks vs key where
    u': "Inr (ts, ks, vs) = struct_unpack (take 16 rest)"
    and len: "\<not> length rest < 16 + ks + vs"
    and k': "Some key = utf8_decode (take ks (drop 16 rest))"
    by (subst (asm) scan_log.simps) (auto split: sum.splits if_splits option.splits)
  note u = u' [symmetric] and k = k' [symmetric]
  let ?R = "LogRecord ts key (take ks (drop 16 rest)) (take vs (drop (16 + ks) rest))"
  let ?n = "16 + ks + vs"
  have s: "scan_log pos rest = (pos, ?R) # scan_log (pos + ?n) (drop ?n rest)"
    using u len k by (subst scan_log.simps) (simp add: add.assoc)
  note us = unpack_sound [OF u]
  have lk: "length (take ks (drop 16 rest)) = ks" "length (take vs (drop (16 + ks) rest)) = vs"
    using len by simp_all
  have vR: "valid_rec ?R" using us k lk by (simp add: valid_rec_def)
  have "take (16 + (ks + vs)) rest = take 16 rest @ take (ks + vs) (drop 16 rest)"
    by (rule take_add)
  moreover have "take (ks + vs) (drop 16 rest) = take ks (drop 16 rest) @ take vs (drop ks (drop 16 rest))"
    by (rule take_add)
  moreover have "drop ks (drop 16 rest) = drop (16 + ks) rest"
    by (simp add: add.commute)
  ultimately have "take 16 rest @ take ks (drop 16 rest) @ take vs (drop (16 + ks) rest) = take ?n rest"
    by (simp add: add.assoc)
  then have bR: "rec_bytes ?R = take ?n rest"
    using us lk by (simp add: rec_bytes_def rec_header_def)
  have sR: "rec_size ?R = ?n" using lk by (simp add: rec_size_def)
  show ?case
  proof (cases "(p, r) = (pos, ?R)")
    case True
    then show ?thesis using vR bR sR by simp
  next
    case False
    then have m: "(p, r) \<in> set (scan_log (pos + ?n) (drop ?n rest))"
      using "1.prems" s by auto
    have m': "(p, r) \<in> set (scan_log (pos + 16 + ks + vs) (drop (16 + ks + vs) rest))"
      using m by (simp add: add.assoc)
    note ih = "1.IH" [OF u refl refl len k m']
    have le: "pos + ?n \<le> p" using ih by (simp add: add.assoc)
    then have e: "p - (pos + 16 + ks + vs) + ?n = p - pos" by simp
    have "drop (p - (pos + 16 + ks + vs)) (drop ?n rest) = drop (p - pos) rest"
      by (simp only: drop_drop e)
    then show ?thesis using ih le by simp
  qed
qed

lemma compact_entries:
  assumes d: "distinct (map fst (keys s))"
    and kx: "keys s = map index_item X"
    and x: "\<forall>(p, r) \<in> set X. valid_rec r \<and> take (rec_size r) (drop p old) = rec_bytes r"
    and f: "data_file s = Some old"
  shows "\<exists>s'. compact s = Inr s' \<and> consistent (map snd X) s' \<and> deleted_size s' = 0 \<and>
           data_file s' \<noteq> None \<and> keys s' = map index_item (layout 0 (map snd X))"
proof -
  let ?rs = "map snd X"
  have bytes: "\<forall>(p, r) \<in> set X. take (rec_size r) (drop p old) = rec_bytes r"
    using x by auto
  have cr: "copied old (map index_item X) = log_bytes ?rs"
    "reloc old 0 (map index_item X) = map index_item (layout 0 ?rs)"
    using copied_records [OF bytes] by simp_all
  have "compact_loop old (keys s) ([], [] @ keys s) =
          ([] @ copied old (keys s), [] @ reloc old (length ([]::byte list)) (keys s))"
    using d by (intro compact_loop_char) simp
  then have loop: "compact_loop old (keys s) ([], keys s) =
       (log_bytes ?rs, map index_item (layout 0 ?rs))"
    using cr by (simp add: kx)
  let ?s' = "\<lparr>data_file = Some (log_bytes ?rs), keys = map index_item (layout 0 ?rs),
              data_size = length (log_bytes ?rs), deleted_size = 0\<rparr>"
  have c: "compact s = Inr ?s'"
    by (simp add: compact_def f loop)
  have "map fst (keys s) = map rec_key ?rs"
    by (simp add: kx index_item_def comp_def)
  then have dr: "distinct (map rec_key ?rs)" using d by simp
  have v: "list_all valid_rec ?rs"
    using x by (auto simp: list_all_iff)
  have "consistent ?rs ?s'"
    using v replay_distinct [OF dr] by (simp add: consistent_def log_of_def)
  then show ?thesis using c by simp
qed

lemma consistent_invariants:
  assumes "consistent rs s"
  shows "invariants s"
proof -
  have L: "log_records s = layout 0 rs" using assms by (rule log_records_consistent)
  have "entry_ok (layout 0 rs) x" if "x \<in> set (keys s)" for x
  proof -
    obtain k e where x: "x = (k, e)" by (cases x)
    have "distinct (map fst (keys s))" using assms by (simp add: consistent_def)
    then have "map_of (keys s) k = Some e" using that x by simp
    from index_entry_record [OF assms this] obtain p r where
      pr: "e = (p, rec_size r, int (rec_ts r))" "rec_key r = k" "(p, r) \<in> set (layout 0 rs)"
      by blast
    have "map_of (layout 0 rs) p = Some r"
      using distinct_layout_offsets pr(3) by (rule map_of_is_SomeI)
    then show ?thesis by (simp add: entry_ok_def x pr)
  qed
  then have "inv1 s" using assms by (simp add: inv1_def L list_all_iff consistent_def)
  moreover have "inv2 s" using reopen_consistent [OF assms] by (simp add: inv2_def)
  moreover have "inv3 s" using assms by (simp add: inv3_def consistent_def)
  moreover have "inv4 s" using consistent_deleted_le [OF assms] by (simp add: inv4_def)
  ultimately show ?thesis by (simp add: invariants_def)
qed

subsection \<open>Evaluation on concrete stores\<close>

lemma batch_loop_appends: "batch_loop items s = batch_appends items s"
proof (induction items arbitrary: s)
  case Nil
  then show ?case by simp
next
  case (Cons x items)
  obtain now key v where x: "x = (now, key, v)" by (cases x)
  show ?case
    unfolding x batch_loop_factored batch_appends.simps
    by (simp add: Cons.IH split: prod.splits sum.splits)
qed

lemmas engine_eval =
  put_def delete_def batch_put_def read_def read_key_range_def compact_def
  compaction_due_def exceeds_threshold_def struct_pack_def struct_unpack_def
  be_bytes_numeral be_nat_def utf8_char_def utf8_decode.simps
  load_from_disk_def init_def load_loop.simps fresh_def DELETED_def ascii_def Let_def

lemmas claim_eval =
  maybe_compact_def append_entry_def log_of_def delete_as_claimed_def
  log_records_def scan_log.simps invariants_def inv1_def inv2_def inv3_def inv4_def entry_ok_def
  rec_size_def encode_record_def new_record_def rec_bytes_def rec_header_def

subsection \<open>Range reads on a store whose data file exists\<close>

lemma read_value_at:
  assumes "map_of (keys s) key = Some (pos, sz, t)" "data_file s = Some f"
  shows "read key s =
           (case value_at f pos of
              Inl e \<Rightarrow> Inl e
            | Inr value \<Rightarrow> if value = DELETED then Inr None else Inr (Some value))"
  using assms by (simp add: read_def value_at_def split: sum.splits option.splits)

lemma range_values_step:
  "range_values f ((key, pos, sz) # keys_to_read) =
     (case value_at f pos of
        Inl e \<Rightarrow> Inl e
      | Inr value \<Rightarrow>
          (case range_values f keys_to_read of
             Inl e \<Rightarrow> Inl e
           | Inr result \<Rightarrow> Inr (if value \<noteq> DELETED then (key, value) # result else result)))"
  by (simp add: value_at_def split: sum.splits option.splits)

lemma range_snapshot_ok:
  assumes "set xs \<subseteq> fst ` set ks"
  shows "\<exists>snap. range_snapshot ks a b xs = Inr snap \<and>
           map fst snap = filter (\<lambda>key. a \<le> key \<and> key \<le> b) xs \<and>
           (\<forall>(key, pos, sz) \<in> set snap. \<exists>t. map_of ks key = Some (pos, sz, t))"
  using assms
proof (induction xs)
  case Nil
  then show ?case by simp
next
  case (Cons x xs)
  then obtain snap where snap: "range_snapshot ks a b xs = Inr snap"
    "map fst snap = filter (\<lambda>key. a \<le> key \<and> key \<le> b) xs"
    "\<forall>(key, pos, sz) \<in> set snap. \<exists>t. map_of ks key = Some (pos, sz, t)"
    by auto
  have "x \<in> fst ` set ks" using Cons.prems by simp
  then obtain e where "map_of ks x = Some e"
    by (metis map_of_eq_None_iff not_Some_eq)
  then obtain pos sz t where e: "map_of ks x = Some (pos, sz, t)" by (cases e) auto
  show ?case using snap e by auto
qed

lemma range_values_ok:
  assumes f: "data_file s = Some f"
    and r: "\<And>key. read key s = Inr (rd key)"
    and snap: "\<forall>(key, pos, sz) \<in> set snap. \<exists>t. map_of (keys s) key = Some (pos, sz, t)"
  shows "range_values f snap =
           Inr (concat (map (\<lambda>key. case read key s of Inr (Some value) \<Rightarrow> [(key, value)] | _ \<Rightarrow> [])
                          (map fst snap)))"
  using snap
proof (induction snap)
  case Nil
  then show ?case by simp
next
  case (Cons x snap)
  obtain key pos sz where x: "x = (key, pos, sz)" by (cases x)
  from Cons.prems obtain t where m: "map_of (keys s) key = Some (pos, sz, t)"
    by (auto simp: x)
  have ih: "range_values f snap =
           Inr (concat (map (\<lambda>key. case read key s of Inr (Some value) \<Rightarrow> [(key, value)] | _ \<Rightarrow> [])
                          (map fst snap)))"
    using Cons by simp
  note rv = read_value_at [OF m f]
  show ?case
  proof (cases "value_at f pos")
    case (Inl e)
    then show ?thesis using rv r [of key] by simp
  next
    case (Inr v)
    then show ?thesis using rv
      by (simp add: x range_values_step ih del: range_values.simps)
  qed
qed

lemma range_read_with_file:
  assumes "run ops fresh = Inr s" and "data_file s \<noteq> None"
  shows "read_key_range start_key end_key s = Inr (range_model start_key end_key s)"
proof -
  from reachable_abstracts [of ops] assms(1) have a: "abstracts (model ops) s" by auto
  obtain f where f: "data_file s = Some f" using assms(2) by auto
  have "set (sort (map fst (keys s))) \<subseteq> fst ` set (keys s)" by simp
  from range_snapshot_ok [OF this, of start_key end_key] obtain snap where
    snap: "range_snapshot (keys s) start_key end_key (sort (map fst (keys s))) = Inr snap"
      "map fst snap = filter (\<lambda>key. start_key \<le> key \<and> key \<le> end_key) (sort (map fst (keys s)))"
      "\<forall>(key, pos, sz) \<in> set snap. \<exists>t. map_of (keys s) key = Some (pos, sz, t)"
    by blast
  have "range_values f snap =
           Inr (concat (map (\<lambda>key. case read key s of Inr (Some value) \<Rightarrow> [(key, value)] | _ \<Rightarrow> [])
                          (map fst snap)))"
    using f read_abstracts [OF a] snap(3) by (rule range_values_ok)
  then show ?thesis
    by (simp add: read_key_range_def snap(1,2) f range_model_def)
qed

lemma range_model_sorted:
  assumes "distinct (map fst (keys s))"
  shows "sorted (map fst (range_model a b s)) \<and> distinct (map fst (range_model a b s))"
proof -
  let ?g = "\<lambda>key. case read key s of Inr (Some value) \<Rightarrow> [(key, value)] | _ \<Rightarrow> []"
  have k: "map fst (concat (map ?g xs)) = filter (\<lambda>key. ?g key \<noteq> []) xs" for xs
    by (induction xs) (auto split: sum.splits option.splits)
  have sf: "sorted (filter P xs)" if "sorted xs" for P and xs :: "pystr list"
    using that sorted_filter [of "\<lambda>x. x" xs P] by simp
  have "sorted (filter (\<lambda>key. ?g key \<noteq> [])
           (filter (\<lambda>key. a \<le> key \<and> key \<le> b) (sort (map fst (keys s)))))"
    by (intro sf) simp
  moreover have "distinct (filter (\<lambda>key. ?g key \<noteq> [])
           (filter (\<lambda>key. a \<le> key \<and> key \<le> b) (sort (map fst (keys s)))))"
    using assms by simp
  ultimately show ?thesis
    unfolding range_model_def k by simp
qed

lemma range_model_mem:
  "(key, value) \<in> set (range_model a b s) \<longleftrightarrow>
     key \<in> fst ` set (keys s) \<and> a \<le> key \<and> key \<le> b \<and> read key s = Inr (Some value)"
  by (auto simp: range_model_def split: sum.splits option.splits)

section \<open>Recovery of a log with a torn tail\<close>

text \<open>
  C1 (the code departs from the claim). The claim: a log of complete records
  followed by a proper prefix of a record is replayed without error, the index
  holds the keys of the complete records only, and \<open>data_size\<close> is the length of
  the decoded prefix. Evaluated on the code: one complete record (key \<open>a\<close>, value
  \<open>1\<close>) followed by 7 stray bytes makes \<^verbatim>\<open>_load_from_disk\<close> raise
  \<^verbatim>\<open>struct.error\<close>, because the 7-byte header is not empty and goes to
  \<^verbatim>\<open>struct.unpack\<close>; and the same record followed by a complete header that
  announces a 5-byte key and a 3-byte value, with only 2 bytes after it, is
  replayed without error but indexes the torn record under the key \<open>bc\<close> and
  counts its announced 24 bytes, so that \<open>data_size\<close> is 42 for a file of 36 bytes.
\<close>

theorem torn_tail_recovery_fails:
  "init (Some ([0,0,0,0,0,0,0,1, 0,0,0,1, 0,0,0,1, 97, 49] @ [1,2,3,4,5,6,7])) = Inl StructError \<and>
   init (Some ([0,0,0,0,0,0,0,1, 0,0,0,1, 0,0,0,1, 97, 49]
                @ [0,0,0,0,0,0,0,2, 0,0,0,5, 0,0,0,3, 98, 99])) =
     Inr \<lparr>data_file = Some ([0,0,0,0,0,0,0,1, 0,0,0,1, 0,0,0,1, 97, 49]
                @ [0,0,0,0,0,0,0,2, 0,0,0,5, 0,0,0,3, 98, 99]),
          keys = [([97], (0, 18, 1)), ([98, 99], (18, 24, 2))],
          data_size = 42, deleted_size = 0\<rparr>"
  by (simp add: init_def load_from_disk_def load_loop.simps struct_unpack_def be_nat_def
        utf8_decode.simps)

section \<open>The response to a request\<close>

text \<open>
  C2 (the code departs from the claim). The claim: every accepted request line,
  a \<^verbatim>\<open>BATCHPUT\<close> among them, is answered by one line that starts with \<^verbatim>\<open>OK\<close>
  or \<^verbatim>\<open>ERROR\<close> and ends with a newline, a successful \<^verbatim>\<open>BATCHPUT\<close> with
  \<^verbatim>\<open>OK\<close>. Evaluated on the code: for the request \<^verbatim>\<open>BATCHPUT 1\<close>, newline,
  \<^verbatim>\<open>k v\<close> (the bytes below) the handler sends the empty byte string and leaves
  the store as it was, whatever the store: the branch is \<^verbatim>\<open>pass\<close>, the engine's
  \<^verbatim>\<open>batch_put\<close> is never called, and the response is still the empty string of
  its initialisation.
\<close>

theorem batchput_sends_nothing:
  "handle exc_text [66,65,84,67,72,80,85,84, 32, 49, 10, 107, 32, 118] now store = (Some [], store)"
  by (simp add: handle_def utf8_decode.simps strip_def py_isspace_def split1_def ascii_def
        respond_def Let_def)

section \<open>Recovery equivalence\<close>

text \<open>
  C3 (confirmed). For every sequence \<open>ops\<close> of engine calls on a fresh store
  (puts and deletes, and also batch puts and reopenings; a call that raises
  leaves the store to the next call), the calls end in a store \<open>s\<close> such that
  constructing a new store on the data file of \<open>s\<close> replays the log without error
  and yields \<open>s\<close> itself: the same index in the same order and the same
  counters. The index agrees with the last-writer-wins model of the calls
  that were accepted: a key the model does not hold is not indexed; a key the
  model holds with timestamp \<open>now\<close> and value \<open>value\<close> is indexed with that
  timestamp at an offset where the log holds exactly the record of that write
  (a delete writes the value \<^verbatim>\<open>DELETED\<close>); and \<^verbatim>\<open>read\<close> returns the model's
  value, with deleted keys hidden.
\<close>

theorem recovery_equivalence:
  "\<exists>s. run ops fresh = Inr s \<and> init (data_file s) = Inr s \<and>
        (\<forall>key. read key s = Inr (model_read (model ops) key)) \<and>
        (\<forall>key. case model ops key of
                  None \<Rightarrow> map_of (keys s) key = None
                | Some (now, value) \<Rightarrow>
                    (\<exists>pos sz. map_of (keys s) key = Some (pos, sz, now) \<and>
                       Some (take sz (drop pos (log_of s))) = encode_record now key value))"
proof -
  from reachable_abstracts [of ops] obtain s where
    s: "run ops fresh = Inr s" "abstracts (model ops) s" by auto
  then obtain rs where "consistent rs s" by (auto simp: abstracts_def)
  then have "init (data_file s) = Inr s"
    by (simp add: init_load reopen_consistent)
  moreover have "case model ops key of
                  None \<Rightarrow> map_of (keys s) key = None
                | Some (now, value) \<Rightarrow>
                    (\<exists>pos sz. map_of (keys s) key = Some (pos, sz, now) \<and>
                       Some (take sz (drop pos (log_of s))) = encode_record now key value)" for key
    using abstracts_entry [OF s(2), of key] abstracts_entry_none [OF s(2), of key]
    by (auto split: option.splits)
  ultimately show ?thesis using s read_abstracts [OF s(2)] by blast
qed

section \<open>Read your writes\<close>

text \<open>
  C4 (corrected). The claim, for every key and every value: after puts ending
  with \<^verbatim>\<open>put(k, v)\<close> and no later put or delete of \<open>k\<close>, \<^verbatim>\<open>read(k)\<close> returns
  \<open>v\<close>. It fails for the value \<^verbatim>\<open>DELETED\<close>, by design: the record format has no
  tombstone flag, a record whose value is the seven bytes \<^verbatim>\<open>DELETED\<close> is the
  tombstone, and \<^verbatim>\<open>read\<close> returns \<open>None\<close> for it. The counterexample puts that
  value on a fresh store: the put succeeds and the read returns \<open>None\<close>.
\<close>

theorem read_your_writes_tombstone_value:
  "fst (put 1 [107] DELETED fresh) = Inr True \<and>
   read [107] (snd (put 1 [107] DELETED fresh)) = Inr None"
  by (simp add: engine_eval)

text \<open>
  C4 as amended: let \<open>s\<close> be the store after any sequence of engine calls on a
  fresh store. If \<^verbatim>\<open>put(k, v)\<close> on \<open>s\<close> returns \<^verbatim>\<open>True\<close> and \<open>v\<close> is not the
  string \<^verbatim>\<open>DELETED\<close>, then after any later calls that neither put nor delete
  \<open>k\<close> (other puts, deletes, batch puts, reopenings, with the compactions they
  trigger) the calls have not failed and \<^verbatim>\<open>read(k)\<close> returns \<open>v\<close>.
\<close>

theorem read_your_writes:
  assumes "run ops fresh = Inr s"
    and "put now key value s = (Inr True, s1)"
    and "value \<noteq> DELETED"
    and "key \<notin> set (concat (map written_keys later))"
  shows "\<exists>s2. run later s1 = Inr s2 \<and> read key s2 = Inr (Some value)"
proof -
  from reachable_abstracts [of ops] assms(1) have a: "abstracts (model ops) s" by auto
  from abstracts_put [OF a, of now key "value"] assms(2)
  have a1: "abstracts ((model ops)(key \<mapsto> (now, value))) s1" by auto
  from abstracts_run [OF a1, of later] obtain s2 where
    s2: "run later s1 = Inr s2"
        "abstracts (foldl model_step ((model ops)(key \<mapsto> (now, value))) later) s2"
    by auto
  have "foldl model_step ((model ops)(key \<mapsto> (now, value))) later key = Some (now, value)"
    using model_run_other [OF assms(4)] by simp
  then have "read key s2 = Inr (Some value)"
    using read_abstracts [OF s2(2), of key] assms(3) by (simp add: model_read_def)
  then show ?thesis using s2(1) by simp
qed

theorem read_your_writes_witness:
  "run [Put 1 [106] [119]] fresh =
     Inr \<lparr>data_file = Some [0,0,0,0,0,0,0,1, 0,0,0,1, 0,0,0,1, 106, 119], keys = [([106], (0, 18, 1))], data_size = 18, deleted_size = 0\<rparr> \<and>
   put 2 [107] [118]
     \<lparr>data_file = Some [0,0,0,0,0,0,0,1, 0,0,0,1, 0,0,0,1, 106, 119], keys = [([106], (0, 18, 1))], data_size = 18, deleted_size = 0\<rparr> =
     (Inr True,
      \<lparr>data_file = Some ([0,0,0,0,0,0,0,1, 0,0,0,1, 0,0,0,1, 106, 119] @ [0,0,0,0,0,0,0,2, 0,0,0,1, 0,0,0,1, 107, 118]),
       keys = [([106], (0, 18, 1)), ([107], (18, 18, 2))], data_size = 36, deleted_size = 0\<rparr>) \<and>
   [118] \<noteq> DELETED \<and>
   [107] \<notin> set (concat (map written_keys [Put 3 [106] [120], Delete 4 [106], Reopen])) \<and>
   (\<exists>s2. run [Put 3 [106] [120], Delete 4 [106], Reopen]
           \<lparr>data_file = Some ([0,0,0,0,0,0,0,1, 0,0,0,1, 0,0,0,1, 106, 119] @ [0,0,0,0,0,0,0,2, 0,0,0,1, 0,0,0,1, 107, 118]),
            keys = [([106], (0, 18, 1)), ([107], (18, 18, 2))], data_size = 36, deleted_size = 0\<rparr>
         = Inr s2 \<and>
         read [107] s2 = Inr (Some [118]))"
proof -
  have h1: "run [Put 1 [106] [119]] fresh =
     Inr \<lparr>data_file = Some [0,0,0,0,0,0,0,1, 0,0,0,1, 0,0,0,1, 106, 119], keys = [([106], (0, 18, 1))], data_size = 18, deleted_size = 0\<rparr>"
    by (simp add: engine_eval)
  have h2: "put 2 [107] [118]
     \<lparr>data_file = Some [0,0,0,0,0,0,0,1, 0,0,0,1, 0,0,0,1, 106, 119], keys = [([106], (0, 18, 1))], data_size = 18, deleted_size = 0\<rparr> =
     (Inr True,
      \<lparr>data_file = Some ([0,0,0,0,0,0,0,1, 0,0,0,1, 0,0,0,1, 106, 119] @ [0,0,0,0,0,0,0,2, 0,0,0,1, 0,0,0,1, 107, 118]),
       keys = [([106], (0, 18, 1)), ([107], (18, 18, 2))], data_size = 36, deleted_size = 0\<rparr>)"
    by (simp add: engine_eval)
  have h3: "[118] \<noteq> DELETED" by (simp add: DELETED_def ascii_def)
  have h4: "[107] \<notin> set (concat (map written_keys [Put 3 [106] [120], Delete 4 [106], Reopen]))"
    by simp
  from read_your_writes [OF h1 h2 h3 h4] h1 h2 h3 h4 show ?thesis by blast
qed

section \<open>Delete hides\<close>

text \<open>
  C5 (confirmed). Let \<open>s\<close> be the store after any sequence of engine calls on a
  fresh store. If \<^verbatim>\<open>delete(k)\<close> on \<open>s\<close> returns \<^verbatim>\<open>True\<close> (which it only does for
  a key of the index), then after any later calls that do not put \<open>k\<close> (they
  may delete \<open>k\<close> again, write other keys, compact, reopen the store) the calls
  have not failed, \<^verbatim>\<open>read(k)\<close> returns \<open>None\<close>, which the handler answers with
  \<^verbatim>\<open>OK NULL\<close>, and the index still holds \<open>k\<close>, at an offset where the log holds a
  tombstone record for \<open>k\<close>.
\<close>

theorem delete_hides:
  assumes "run ops fresh = Inr s"
    and "delete now key s = (Inr True, s1)"
    and "key \<notin> set (concat (map put_keys later))"
  shows "\<exists>s2. run later s1 = Inr s2 \<and> read key s2 = Inr None \<and>
           (\<exists>pos sz t. map_of (keys s2) key = Some (pos, sz, t) \<and>
              Some (take sz (drop pos (log_of s2))) = encode_record t key DELETED)"
proof -
  from reachable_abstracts [of ops] assms(1) have a: "abstracts (model ops) s" by auto
  from abstracts_delete [OF a, of now key] assms(2)
  have a1: "abstracts ((model ops)(key \<mapsto> (now, DELETED))) s1" by auto
  from abstracts_run [OF a1, of later] obtain s2 where
    s2: "run later s1 = Inr s2"
        "abstracts (foldl model_step ((model ops)(key \<mapsto> (now, DELETED))) later) s2"
    by auto
  from model_run_tombstone [OF assms(3), of "(model ops)(key \<mapsto> (now, DELETED))"]
  obtain t where t: "foldl model_step ((model ops)(key \<mapsto> (now, DELETED))) later key = Some (t, DELETED)"
    by auto
  have "read key s2 = Inr None"
    using read_abstracts [OF s2(2), of key] t by (simp add: model_read_def)
  then show ?thesis using s2(1) abstracts_entry [OF s2(2) t] by auto
qed

theorem delete_hides_witness:
  "run [Put 1 [107] [118]] fresh =
     Inr \<lparr>data_file = Some [0,0,0,0,0,0,0,1, 0,0,0,1, 0,0,0,1, 107, 118],
      keys = [([107], (0, 18, 1))], data_size = 18, deleted_size = 0\<rparr> \<and>
   delete 2 [107]
     \<lparr>data_file = Some [0,0,0,0,0,0,0,1, 0,0,0,1, 0,0,0,1, 107, 118],
      keys = [([107], (0, 18, 1))], data_size = 18, deleted_size = 0\<rparr> =
     (Inr True,
      \<lparr>data_file = Some ([0,0,0,0,0,0,0,1, 0,0,0,1, 0,0,0,1, 107, 118] @ [0,0,0,0,0,0,0,2, 0,0,0,1, 0,0,0,7, 107, 68, 69, 76, 69, 84, 69, 68]),
      keys = [([107], (18, 24, 2))], data_size = 42, deleted_size = 18\<rparr>) \<and>
   [107] \<notin> set (concat (map put_keys [Delete 3 [107], Put 4 [106] [119], Reopen])) \<and>
   (\<exists>s2. run [Delete 3 [107], Put 4 [106] [119], Reopen]
           \<lparr>data_file = Some ([0,0,0,0,0,0,0,1, 0,0,0,1, 0,0,0,1, 107, 118] @ [0,0,0,0,0,0,0,2, 0,0,0,1, 0,0,0,7, 107, 68, 69, 76, 69, 84, 69, 68]),
      keys = [([107], (18, 24, 2))], data_size = 42, deleted_size = 18\<rparr>
         = Inr s2 \<and>
         read [107] s2 = Inr None \<and>
         (\<exists>pos sz t. map_of (keys s2) [107] = Some (pos, sz, t) \<and>
            Some (take sz (drop pos (log_of s2))) = encode_record t [107] DELETED))"
proof -
  have h1: "run [Put 1 [107] [118]] fresh =
     Inr \<lparr>data_file = Some [0,0,0,0,0,0,0,1, 0,0,0,1, 0,0,0,1, 107, 118],
      keys = [([107], (0, 18, 1))], data_size = 18, deleted_size = 0\<rparr>"
    by (simp add: engine_eval)
  have h2: "delete 2 [107]
     \<lparr>data_file = Some [0,0,0,0,0,0,0,1, 0,0,0,1, 0,0,0,1, 107, 118],
      keys = [([107], (0, 18, 1))], data_size = 18, deleted_size = 0\<rparr> =
     (Inr True,
      \<lparr>data_file = Some ([0,0,0,0,0,0,0,1, 0,0,0,1, 0,0,0,1, 107, 118] @ [0,0,0,0,0,0,0,2, 0,0,0,1, 0,0,0,7, 107, 68, 69, 76, 69, 84, 69, 68]),
      keys = [([107], (18, 24, 2))], data_size = 42, deleted_size = 18\<rparr>)"
    by (simp add: engine_eval)
  have h3: "[107] \<notin> set (concat (map put_keys [Delete 3 [107], Put 4 [106] [119], Reopen]))"
    by simp
  from delete_hides [OF h1 h2 h3] h1 h2 h3 show ?thesis by blast
qed

section \<open>Where the compaction trigger is evaluated\<close>

text \<open>
  C6 (corrected). The claim: the trigger is evaluated before every append, in
  \<^verbatim>\<open>put\<close>, in \<^verbatim>\<open>delete\<close> and before each item of \<^verbatim>\<open>batch_put\<close>, and \<^verbatim>\<open>delete\<close>
  evaluates it after its append as well. The code evaluates it before the append
  of \<^verbatim>\<open>put\<close>, once before the first item of \<^verbatim>\<open>batch_put\<close> (the append stream stays
  open over all items), and in \<^verbatim>\<open>delete\<close> only after the tombstone is appended.
  \<open>delete_as_claimed\<close> and \<open>batch_as_claimed\<close> follow the words of the claim. The
  counterexample: after three puts of one key two thirds of the file are
  garbage; \<^verbatim>\<open>delete\<close> appends the tombstone to the uncompacted file and then
  compacts, which leaves the tombstone alone in the file, whereas compaction
  before the append would leave the third record and the tombstone. After two
  puts of one key, a batch of two items runs no compaction at all in the code,
  whereas a trigger before the second item would compact there.
\<close>

theorem trigger_placement_counterexample:
  "run [Put 1 [107] [118], Put 2 [107] [118], Put 3 [107] [118]] fresh =
     Inr \<lparr>data_file = Some ([0,0,0,0,0,0,0,1, 0,0,0,1, 0,0,0,1, 107, 118] @ [0,0,0,0,0,0,0,2, 0,0,0,1, 0,0,0,1, 107, 118] @ [0,0,0,0,0,0,0,3, 0,0,0,1, 0,0,0,1, 107, 118]),
      keys = [([107], (36, 18, 3))], data_size = 54, deleted_size = 36\<rparr> \<and>
   delete 4 [107]
     \<lparr>data_file = Some ([0,0,0,0,0,0,0,1, 0,0,0,1, 0,0,0,1, 107, 118] @ [0,0,0,0,0,0,0,2, 0,0,0,1, 0,0,0,1, 107, 118] @ [0,0,0,0,0,0,0,3, 0,0,0,1, 0,0,0,1, 107, 118]),
      keys = [([107], (36, 18, 3))], data_size = 54, deleted_size = 36\<rparr> =
     (Inr True,
      \<lparr>data_file = Some [0,0,0,0,0,0,0,4, 0,0,0,1, 0,0,0,7, 107, 68, 69, 76, 69, 84, 69, 68],
      keys = [([107], (0, 24, 4))], data_size = 24, deleted_size = 0\<rparr>) \<and>
   delete_as_claimed 4 [107]
     \<lparr>data_file = Some ([0,0,0,0,0,0,0,1, 0,0,0,1, 0,0,0,1, 107, 118] @ [0,0,0,0,0,0,0,2, 0,0,0,1, 0,0,0,1, 107, 118] @ [0,0,0,0,0,0,0,3, 0,0,0,1, 0,0,0,1, 107, 118]),
      keys = [([107], (36, 18, 3))], data_size = 54, deleted_size = 36\<rparr> =
     (Inr True,
      \<lparr>data_file = Some ([0,0,0,0,0,0,0,3, 0,0,0,1, 0,0,0,1, 107, 118] @ [0,0,0,0,0,0,0,4, 0,0,0,1, 0,0,0,7, 107, 68, 69, 76, 69, 84, 69, 68]),
      keys = [([107], (18, 24, 4))], data_size = 42, deleted_size = 18\<rparr>) \<and>
   run [Put 1 [107] [118], Put 2 [107] [118]] fresh =
     Inr \<lparr>data_file = Some ([0,0,0,0,0,0,0,1, 0,0,0,1, 0,0,0,1, 107, 118] @ [0,0,0,0,0,0,0,2, 0,0,0,1, 0,0,0,1, 107, 118]),
      keys = [([107], (18, 18, 2))], data_size = 36, deleted_size = 18\<rparr> \<and>
   batch_put [(3, [107], [118]), (4, [106], [119])]
     \<lparr>data_file = Some ([0,0,0,0,0,0,0,1, 0,0,0,1, 0,0,0,1, 107, 118] @ [0,0,0,0,0,0,0,2, 0,0,0,1, 0,0,0,1, 107, 118]),
      keys = [([107], (18, 18, 2))], data_size = 36, deleted_size = 18\<rparr> =
     (Inr True,
      \<lparr>data_file = Some ([0,0,0,0,0,0,0,1, 0,0,0,1, 0,0,0,1, 107, 118] @ [0,0,0,0,0,0,0,2, 0,0,0,1, 0,0,0,1, 107, 118] @ [0,0,0,0,0,0,0,3, 0,0,0,1, 0,0,0,1, 107, 118] @ [0,0,0,0,0,0,0,4, 0,0,0,1, 0,0,0,1, 106, 119]),
      keys = [([107], (36, 18, 3)), ([106], (54, 18, 4))], data_size = 72, deleted_size = 36\<rparr>) \<and>
   batch_as_claimed [(3, [107], [118]), (4, [106], [119])]
     \<lparr>data_file = Some ([0,0,0,0,0,0,0,1, 0,0,0,1, 0,0,0,1, 107, 118] @ [0,0,0,0,0,0,0,2, 0,0,0,1, 0,0,0,1, 107, 118]),
      keys = [([107], (18, 18, 2))], data_size = 36, deleted_size = 18\<rparr> =
     (Inr True,
      \<lparr>data_file = Some ([0,0,0,0,0,0,0,3, 0,0,0,1, 0,0,0,1, 107, 118] @ [0,0,0,0,0,0,0,4, 0,0,0,1, 0,0,0,1, 106, 119]),
      keys = [([107], (0, 18, 3)), ([106], (18, 18, 4))], data_size = 36, deleted_size = 0\<rparr>)"
  by (simp add: engine_eval claim_eval)

text \<open>
  C6 as amended: \<^verbatim>\<open>put\<close> evaluates the trigger (\<open>data_size > 0\<close> and
  \<open>deleted_size / data_size > 0.5\<close>), compacts if it holds, and then appends;
  \<^verbatim>\<open>delete\<close> of a key of the index appends the tombstone first and evaluates the
  trigger only afterwards; \<^verbatim>\<open>batch_put\<close> evaluates the trigger once, before the
  first item, and then appends all items with no compaction between them. In
  each case the compaction runs synchronously inside the call.
\<close>

theorem trigger_placement:
  "put now key value s =
     (case maybe_compact s of
        Inl e \<Rightarrow> (Inl e, s)
      | Inr s1 \<Rightarrow> append_entry now key value s1) \<and>
   delete now key s =
     (if map_of (keys s) key = None then (Inr False, s)
      else
        (case append_entry now key DELETED s of
           (Inl e, s1) \<Rightarrow> (Inl e, s1)
         | (Inr ok, s1) \<Rightarrow>
             (case maybe_compact s1 of
                Inl e \<Rightarrow> (Inl e, s1)
              | Inr s2 \<Rightarrow> (Inr True, s2)))) \<and>
   batch_put items s =
     (case maybe_compact s of
        Inl e \<Rightarrow> (Inl e, s)
      | Inr s1 \<Rightarrow> batch_appends items (s1\<lparr>data_file := Some (log_of s1)\<rparr>)) \<and>
   maybe_compact s =
     (if data_size s > 0
      then (case exceeds_threshold (deleted_size s) (data_size s) of
              Inl e \<Rightarrow> Inl e
            | Inr due \<Rightarrow> if due then compact s else Inr s)
      else Inr s)"
proof -
  have a: "put now key value s =
     (case maybe_compact s of
        Inl e \<Rightarrow> (Inl e, s)
      | Inr s1 \<Rightarrow> append_entry now key value s1)"
    by (rule put_factored)
  have b: "delete now key s =
     (if map_of (keys s) key = None then (Inr False, s)
      else
        (case append_entry now key DELETED s of
           (Inl e, s1) \<Rightarrow> (Inl e, s1)
         | (Inr ok, s1) \<Rightarrow>
             (case maybe_compact s1 of
                Inl e \<Rightarrow> (Inl e, s1)
              | Inr s2 \<Rightarrow> (Inr True, s2))))"
    by (rule delete_factored)
  have c: "batch_put items s =
     (case maybe_compact s of
        Inl e \<Rightarrow> (Inl e, s)
      | Inr s1 \<Rightarrow> batch_appends items (s1\<lparr>data_file := Some (log_of s1)\<rparr>))"
    unfolding batch_loop_appends [symmetric] by (rule batch_put_factored)
  have d: "maybe_compact s =
     (if data_size s > 0
      then (case exceeds_threshold (deleted_size s) (data_size s) of
              Inl e \<Rightarrow> Inl e
            | Inr due \<Rightarrow> if due then compact s else Inr s)
      else Inr s)"
    by (simp add: maybe_compact_def compaction_due_def)
  show ?thesis by (rule conjI [OF a conjI [OF b conjI [OF c d]]])
qed

section \<open>The postcondition of compaction\<close>

text \<open>
  The invariants of the specification, as predicates on a store. Invariant 1:
  the keys of the index are distinct (it is a dictionary) and every entry
  references a record of the log with its key, length and timestamp. Invariant
  2: replaying the log yields the index. Invariant 3: \<open>data_size\<close> is the length
  of the file. Invariant 4: \<open>deleted_size \<le> data_size\<close>.

  C7 (corrected). The claim: from every store that satisfies invariants 1 to 4
  compaction leads to a store that satisfies them, with \<open>deleted_size = 0\<close>,
  \<open>data_size\<close> the length of the new file, and a log of exactly one record per
  live (non-tombstoned) key. Two things differ in the code, both by design.
  \<^verbatim>\<open>_compact\<close> copies the record of every key of the index, and \<^verbatim>\<open>delete\<close> leaves
  the key in the index, so tombstones are copied: after \<^verbatim>\<open>put(a, 1)\<close> and
  \<^verbatim>\<open>delete(a)\<close> no key is live, and the compacted log holds one record, the
  tombstone of \<open>a\<close>. And \<^verbatim>\<open>_compact\<close> opens the data file: on the fresh store,
  which satisfies the invariants and has no file yet, it raises (the trigger
  never calls it there, since \<open>data_size = 0\<close>).
\<close>

theorem compaction_keeps_tombstones:
  "invariants
     \<lparr>data_file = Some ([0,0,0,0,0,0,0,1, 0,0,0,1, 0,0,0,1, 97, 49] @ [0,0,0,0,0,0,0,2, 0,0,0,1, 0,0,0,7, 97, 68, 69, 76, 69, 84, 69, 68]),
      keys = [([97], (18, 24, 2))], data_size = 42, deleted_size = 18\<rparr> \<and>
   compact
     \<lparr>data_file = Some ([0,0,0,0,0,0,0,1, 0,0,0,1, 0,0,0,1, 97, 49] @ [0,0,0,0,0,0,0,2, 0,0,0,1, 0,0,0,7, 97, 68, 69, 76, 69, 84, 69, 68]),
      keys = [([97], (18, 24, 2))], data_size = 42, deleted_size = 18\<rparr> =
     Inr \<lparr>data_file = Some [0,0,0,0,0,0,0,2, 0,0,0,1, 0,0,0,7, 97, 68, 69, 76, 69, 84, 69, 68],
      keys = [([97], (0, 24, 2))], data_size = 24, deleted_size = 0\<rparr> \<and>
   read [97]
     \<lparr>data_file = Some [0,0,0,0,0,0,0,2, 0,0,0,1, 0,0,0,7, 97, 68, 69, 76, 69, 84, 69, 68],
      keys = [([97], (0, 24, 2))], data_size = 24, deleted_size = 0\<rparr> = Inr None \<and>
   map (\<lambda>(pos, r). rec_key r)
     (log_records
        \<lparr>data_file = Some [0,0,0,0,0,0,0,2, 0,0,0,1, 0,0,0,7, 97, 68, 69, 76, 69, 84, 69, 68],
      keys = [([97], (0, 24, 2))], data_size = 24, deleted_size = 0\<rparr>) = [[97]] \<and>
   invariants fresh \<and>
   compact fresh = Inl FileNotFoundError"
  by (simp add: engine_eval claim_eval)

text \<open>
  C7 as amended: from every store that satisfies invariants 1 to 4 and whose
  data file exists, compaction returns a store that satisfies invariants 1 to 4,
  with \<open>deleted_size = 0\<close> and \<open>data_size\<close> the length of the new file, whose log
  holds exactly one record per key of the index, tombstoned keys included, in
  the order of the index, and nothing else. The index keeps its keys and every
  \<^verbatim>\<open>read\<close> returns what it returned before.
\<close>

theorem compaction_postcondition:
  assumes "invariants s" and "data_file s \<noteq> None"
  shows "\<exists>s'. compact s = Inr s' \<and> invariants s' \<and>
           deleted_size s' = 0 \<and> data_size s' = length (log_of s') \<and>
           map (\<lambda>(pos, r). rec_key r) (log_records s') = map fst (keys s') \<and>
           distinct (map fst (keys s')) \<and>
           sum_list (map (\<lambda>(pos, r). rec_size r) (log_records s')) = length (log_of s') \<and>
           map fst (keys s') = map fst (keys s) \<and>
           (\<forall>key. read key s' = read key s)"
proof -
  obtain old where f: "data_file s = Some old" using assms(2) by auto
  let ?L = "log_records s"
  let ?g = "\<lambda>(key, (pos, sz, timestamp)). (pos, the (map_of ?L pos))"
  let ?X = "map ?g (keys s)"
  have d: "distinct (map fst (keys s))" using assms(1) by (simp add: invariants_def inv1_def)
  have ok: "\<And>x. x \<in> set (keys s) \<Longrightarrow> entry_ok ?L x"
    using assms(1) by (simp add: invariants_def inv1_def list_all_iff)
  have g: "index_item (?g x) = x \<and> ?g x \<in> set ?L" if "x \<in> set (keys s)" for x
  proof -
    obtain k p sz t where x: "x = (k, (p, sz, t))" by (cases x) auto
    from ok [OF that] obtain r where r: "map_of ?L p = Some r" "rec_key r = k" "rec_size r = sz"
      "int (rec_ts r) = t"
      by (auto simp: entry_ok_def x split: option.splits)
    then show ?thesis using map_of_SomeD [OF r(1)] by (simp add: x)
  qed
  have kx: "keys s = map index_item ?X"
    using g by (simp add: map_idI comp_def)
  have Lf: "?L = scan_log 0 old" by (simp add: log_records_def f)
  have xs: "\<forall>(p, r) \<in> set ?X. valid_rec r \<and> take (rec_size r) (drop p old) = rec_bytes r"
  proof (clarify)
    fix p r assume "(p, r) \<in> set ?X"
    then have "(p, r) \<in> set (scan_log 0 old)" using g Lf by auto
    from scan_log_sound [OF this]
    show "valid_rec r \<and> take (rec_size r) (drop p old) = rec_bytes r" by simp
  qed
  from compact_entries [OF d kx xs f] obtain s' where
    s': "compact s = Inr s'" "consistent (map snd ?X) s'" "deleted_size s' = 0"
        "keys s' = map index_item (layout 0 (map snd ?X))"
    by blast
  let ?rs = "map snd ?X"
  have L': "log_records s' = layout 0 ?rs" using s'(2) by (rule log_records_consistent)
  have a: "map (\<lambda>(pos, r). rec_key r) (log_records s') = map fst (keys s')"
    by (simp add: L' s'(4) index_item_def comp_def case_prod_unfold)
  have b: "sum_list (map (\<lambda>(pos, r). rec_size r) (log_records s')) = length (log_of s')"
    using s'(2) by (simp add: L' case_prod_unfold consistent_def)
  have kf: "map fst (keys s) = map rec_key ?rs"
    using arg_cong [OF kx, of "map fst"] by (simp add: index_item_def comp_def)
  have "map fst (map index_item (layout 0 ?rs)) = map rec_key (map snd (layout 0 ?rs))"
    by (simp only: map_map comp_def index_item_def fst_conv)
  then have c: "map fst (keys s') = map fst (keys s)"
    by (simp add: s'(4) kf)
  have rd: "read key s' = read key s" for key
  proof (cases "map_of (keys s) key")
    case None
    then have "map_of (keys s') key = None"
      using c by (metis map_of_eq_None_iff set_map)
    then show ?thesis using None by (simp add: read_def)
  next
    case (Some e)
    then have m: "(key, e) \<in> set (keys s)" by (rule map_of_SomeD)
    obtain p sz t where e: "e = (p, sz, t)" by (cases e)
    define r where "r = the (map_of ?L p)"
    have gx: "?g (key, e) = (p, r)" by (simp add: e r_def)
    have "index_item (p, r) = (key, e)" using g [OF m] gx by simp
    then have r: "rec_key r = key" "rec_size r = sz" "int (rec_ts r) = t" by (simp_all add: e)
    have "?g (key, e) \<in> ?g ` set (keys s)" using m by (rule imageI)
    then have inX: "(p, r) \<in> set ?X" by (simp only: gx set_map)
    then have vb: "valid_rec r" "take (rec_size r) (drop p old) = rec_bytes r"
      using xs by auto
    have "snd (p, r) \<in> snd ` set ?X" using inX by (rule imageI)
    then have "r \<in> set ?rs" by (simp only: set_map snd_conv)
    moreover have "distinct (map rec_key ?rs)"
      using d by (simp only: kf)
    ultimately have "last_rec ?rs key = Some r" using r(1) by (simp only: last_rec_distinct)
    then have "read key s' = visible (Some r)" by (simp add: read_consistent [OF s'(2)])
    moreover have "read key s = visible (Some r)"
      by (simp add: read_def Some e f r(2) [symmetric] record_at_bytes [OF vb(2)]
            unpack_header [OF vb(1)] visible_def split: option.splits)
    ultimately show ?thesis by simp
  qed
  have "invariants s'" using s'(2) by (rule consistent_invariants)
  moreover have "data_size s' = length (log_of s')" using s'(2) by (simp add: consistent_def)
  moreover have "distinct (map fst (keys s'))" using c d by simp
  ultimately show ?thesis using s'(1,3) a b c rd by blast
qed

theorem compaction_postcondition_witness:
  "invariants
     \<lparr>data_file = Some ([0,0,0,0,0,0,0,1, 0,0,0,1, 0,0,0,1, 107, 118] @ [0,0,0,0,0,0,0,2, 0,0,0,1, 0,0,0,1, 107, 118] @ [0,0,0,0,0,0,0,3, 0,0,0,1, 0,0,0,1, 107, 118]),
      keys = [([107], (36, 18, 3))], data_size = 54, deleted_size = 36\<rparr> \<and>
   data_file
     \<lparr>data_file = Some ([0,0,0,0,0,0,0,1, 0,0,0,1, 0,0,0,1, 107, 118] @ [0,0,0,0,0,0,0,2, 0,0,0,1, 0,0,0,1, 107, 118] @ [0,0,0,0,0,0,0,3, 0,0,0,1, 0,0,0,1, 107, 118]),
      keys = [([107], (36, 18, 3))], data_size = 54, deleted_size = 36\<rparr> \<noteq> None \<and>
   (\<exists>s'. compact
           \<lparr>data_file = Some ([0,0,0,0,0,0,0,1, 0,0,0,1, 0,0,0,1, 107, 118] @ [0,0,0,0,0,0,0,2, 0,0,0,1, 0,0,0,1, 107, 118] @ [0,0,0,0,0,0,0,3, 0,0,0,1, 0,0,0,1, 107, 118]),
      keys = [([107], (36, 18, 3))], data_size = 54, deleted_size = 36\<rparr> = Inr s' \<and>
         invariants s' \<and> deleted_size s' = 0 \<and> data_size s' = length (log_of s') \<and>
         map (\<lambda>(pos, r). rec_key r) (log_records s') = map fst (keys s'))"
proof -
  have h1: "invariants
     \<lparr>data_file = Some ([0,0,0,0,0,0,0,1, 0,0,0,1, 0,0,0,1, 107, 118] @ [0,0,0,0,0,0,0,2, 0,0,0,1, 0,0,0,1, 107, 118] @ [0,0,0,0,0,0,0,3, 0,0,0,1, 0,0,0,1, 107, 118]),
      keys = [([107], (36, 18, 3))], data_size = 54, deleted_size = 36\<rparr>"
    by (simp add: engine_eval claim_eval)
  have h2: "data_file
     \<lparr>data_file = Some ([0,0,0,0,0,0,0,1, 0,0,0,1, 0,0,0,1, 107, 118] @ [0,0,0,0,0,0,0,2, 0,0,0,1, 0,0,0,1, 107, 118] @ [0,0,0,0,0,0,0,3, 0,0,0,1, 0,0,0,1, 107, 118]),
      keys = [([107], (36, 18, 3))], data_size = 54, deleted_size = 36\<rparr> \<noteq> None"
    by simp
  from compaction_postcondition [OF h1 h2] h1 h2 show ?thesis by blast
qed

section \<open>Counter consistency\<close>

text \<open>
  C8 (confirmed). After every sequence of puts, deletes, batch puts and
  reopenings on a fresh store, \<open>data_size\<close> is the length of the data file,
  \<open>deleted_size\<close> is the sum of the lengths of the records of the log whose
  offset no index entry holds, and \<open>deleted_size \<le> data_size\<close>. The records of
  the log cover the whole file.
\<close>

theorem counter_consistency:
  "\<exists>s. run ops fresh = Inr s \<and>
        data_size s = length (log_of s) \<and>
        deleted_size s = garbage_bytes s \<and>
        deleted_size s \<le> data_size s \<and>
        sum_list (map (\<lambda>(pos, r). rec_size r) (log_records s)) = length (log_of s)"
proof -
  from reachable_abstracts [of ops] obtain s rs where
    s: "run ops fresh = Inr s" "consistent rs s" by (auto simp: abstracts_def)
  have "sum_list (map (\<lambda>(pos, r). rec_size r) (log_records s)) = length (log_of s)"
    using s(2) by (simp add: log_records_consistent [OF s(2)] case_prod_unfold consistent_def)
  then show ?thesis
    using s garbage_bytes_consistent [OF s(2)] consistent_deleted_le [OF s(2)]
    by (auto simp: consistent_def)
qed

section \<open>Range reads\<close>

text \<open>
  C9 (the code departs from the claim). The claim: \<^verbatim>\<open>read_key_range\<close> returns
  exactly the live pairs inside the range, in key order. Evaluated on the code:
  on a store that has not written anything yet (no \<^verbatim>\<open>store.dat\<close>, which is the
  state \<^verbatim>\<open>KeyValueStore()\<close> starts in) the claim makes the result the empty
  list, but \<^verbatim>\<open>read_key_range\<close> opens the data file before it looks at the
  snapshot and raises \<^verbatim>\<open>FileNotFoundError\<close>, whereas \<^verbatim>\<open>read\<close> on the same store
  returns \<open>None\<close> without touching the file. Lemma \<open>range_read_with_file\<close> below
  shows that this is the only departure: once the data file exists the result
  is the one the claim describes.
\<close>

theorem range_read_without_file:
  "init None = Inr fresh \<and>
   read_key_range [97] [122] fresh = Inl FileNotFoundError \<and>
   read [97] fresh = Inr None"
  by (simp add: init_def load_from_disk_def fresh_def read_key_range_def read_def)

section \<open>A stored value \<^verbatim>\<open>NULL\<close> and a missing key\<close>

lemma strip_unchanged:
  assumes "s \<noteq> []" "\<not> py_isspace (hd s)" "\<not> py_isspace (last s)"
  shows "strip s = s"
proof -
  have "dropWhile py_isspace s = s" using assms by (simp add: dropWhile_eq_self_iff)
  moreover have "dropWhile py_isspace (rev s) = rev s"
    using assms by (simp add: dropWhile_eq_self_iff hd_rev)
  ultimately show ?thesis by (simp add: strip_def)
qed

text \<open>
  C10 (confirmed). Let \<open>key\<close> be a key as a request can name it: not empty and
  with no white space at either end (the handler strips the request), and let
  \<open>request\<close> be the bytes of \<^verbatim>\<open>READ\<close>, a space and the key, as \<^verbatim>\<open>recv(1024)\<close>
  returned them. If the store holds the four-character value \<^verbatim>\<open>NULL\<close> for the
  key (\<^verbatim>\<open>read\<close> returns it), or if the key is absent or tombstoned (\<^verbatim>\<open>read\<close>
  returns \<open>None\<close>), the handler sends the same bytes: the line \<^verbatim>\<open>OK NULL\<close> with
  its newline. The store is unchanged.
\<close>

theorem null_value_ambiguity:
  assumes "key \<noteq> []" and "\<not> py_isspace (hd key)" and "\<not> py_isspace (last key)"
    and "utf8_encode (ascii ''READ '' @ key) = Some request" and "length request \<le> 1024"
    and "read key store = Inr (Some (ascii ''NULL'')) \<or> read key store = Inr None"
  shows "handle exc_text request now store = (utf8_encode (ascii ''OK NULL'' @ [10]), store)"
proof -
  let ?line = "ascii ''READ '' @ key"
  have d: "utf8_decode request = Some ?line"
    using assms(4) by (rule utf8_decode_encode)
  have "last ?line = last key" using assms(1) by simp
  then have s: "strip ?line = ?line"
    using assms(3) by (intro strip_unchanged) (simp_all add: ascii_def py_isspace_def)
  have sp: "split1 ?line = [ascii ''READ'', key]"
    by (simp add: split1_def ascii_def)
  have ne: "?line \<noteq> ascii ''SHUTDOWN''" "ascii ''READ'' \<noteq> ascii ''PUT''"
    by (simp_all add: ascii_def)
  have ok: "ascii ''OK '' @ ascii ''NULL'' @ [10] = ascii ''OK NULL'' @ [10]"
    by (simp add: ascii_def)
  show ?thesis
    using assms(6)
    by (auto simp: handle_def d s sp ne ok respond_def Let_def)
qed

theorem null_value_ambiguity_witness:
  "[107] \<noteq> [] \<and> \<not> py_isspace (hd [107]) \<and> \<not> py_isspace (last [107]) \<and>
   utf8_encode (ascii ''READ '' @ [107]) = Some [82,69,65,68, 32, 107] \<and>
   length ([82,69,65,68, 32, 107] :: byte list) \<le> 1024 \<and>
   read [107] \<lparr>data_file = Some [0,0,0,0,0,0,0,1, 0,0,0,1, 0,0,0,4, 107, 78, 85, 76, 76],
      keys = [([107], (0, 21, 1))], data_size = 21, deleted_size = 0\<rparr> = Inr (Some (ascii ''NULL'')) \<and>
   read [107] fresh = Inr None \<and>
   handle (\<lambda>e. []) [82,69,65,68, 32, 107] 2 \<lparr>data_file = Some [0,0,0,0,0,0,0,1, 0,0,0,1, 0,0,0,4, 107, 78, 85, 76, 76],
      keys = [([107], (0, 21, 1))], data_size = 21, deleted_size = 0\<rparr> =
     (utf8_encode (ascii ''OK NULL'' @ [10]), \<lparr>data_file = Some [0,0,0,0,0,0,0,1, 0,0,0,1, 0,0,0,4, 107, 78, 85, 76, 76],
      keys = [([107], (0, 21, 1))], data_size = 21, deleted_size = 0\<rparr>) \<and>
   handle (\<lambda>e. []) [82,69,65,68, 32, 107] 2 fresh = (utf8_encode (ascii ''OK NULL'' @ [10]), fresh)"
proof -
  have h1: "[107::nat] \<noteq> []" by simp
  have h2: "\<not> py_isspace (hd [107])" by (simp add: py_isspace_def)
  have h3: "\<not> py_isspace (last [107])" by (simp add: py_isspace_def)
  have h4: "utf8_encode (ascii ''READ '' @ [107]) = Some [82,69,65,68, 32, 107]"
    by (simp add: ascii_def utf8_char_def)
  have h5: "length ([82,69,65,68, 32, 107] :: byte list) \<le> 1024" by simp
  have h6: "read [107] \<lparr>data_file = Some [0,0,0,0,0,0,0,1, 0,0,0,1, 0,0,0,4, 107, 78, 85, 76, 76],
      keys = [([107], (0, 21, 1))], data_size = 21, deleted_size = 0\<rparr> = Inr (Some (ascii ''NULL''))"
    by (simp add: engine_eval)
  have h7: "read [107] fresh = Inr None" by (simp add: engine_eval)
  have a: "handle (\<lambda>e. []) [82,69,65,68, 32, 107] 2 \<lparr>data_file = Some [0,0,0,0,0,0,0,1, 0,0,0,1, 0,0,0,4, 107, 78, 85, 76, 76],
      keys = [([107], (0, 21, 1))], data_size = 21, deleted_size = 0\<rparr> =
     (utf8_encode (ascii ''OK NULL'' @ [10]), \<lparr>data_file = Some [0,0,0,0,0,0,0,1, 0,0,0,1, 0,0,0,4, 107, 78, 85, 76, 76],
      keys = [([107], (0, 21, 1))], data_size = 21, deleted_size = 0\<rparr>)"
    using h6 by (intro null_value_ambiguity [OF h1 h2 h3 h4 h5]) simp
  have b: "handle (\<lambda>e. []) [82,69,65,68, 32, 107] 2 fresh = (utf8_encode (ascii ''OK NULL'' @ [10]), fresh)"
    using h7 by (intro null_value_ambiguity [OF h1 h2 h3 h4 h5]) simp
  show ?thesis using h1 h2 h3 h4 h5 h6 h7 a b by blast
qed

end
